theory Spec2Isabelle
  imports Main
begin

section \<open>Data model of \<open>a9bsp.py\<close>\<close>

text \<open>
  The exceptions the module can raise. \<open>UnsatisfiableConstraints\<close> and
  \<open>SolutionNotFound\<close> are the module's own classes; the others are the Python
  built-ins raised by a dictionary lookup, by \<open>itertools.combinations\<close> with a
  negative length, by an explicit \<open>raise ValueError\<close>, by a read of an unbound
  local name and by a read of \<open>t[-1]\<close> on an empty tuple.
\<close>

datatype error =
    UnsatisfiableConstraints
  | SolutionNotFound
  | ValueError
  | KeyError
  | NameError
  | IndexError

text \<open>
  The class \<open>AccessibleBSP\<close>: the clause list, the two dictionaries of the
  registry and the variable counter. Literals and identifiers are Python
  integers.
\<close>

record 'e AccessibleBSP =
  clauses :: "int list list"
  e2id :: "'e \<rightharpoonup> int"
  id2e :: "int \<rightharpoonup> 'e"
  variables :: int

definition init :: "'e AccessibleBSP" where
  "init = \<lparr>clauses = [], e2id = Map.empty, id2e = Map.empty, variables = 0\<rparr>"

subsection \<open>Registry\<close>

text \<open>
  \<open>to_id\<close> mutates the object, so the model returns the identifier together
  with the new state. The final read \<open>self.e2id[element]\<close> cannot fail: the
  key is present, either before the call or by the assignment just made.
\<close>

definition to_id :: "'e AccessibleBSP \<Rightarrow> 'e \<Rightarrow> int \<times> 'e AccessibleBSP" where
  "to_id p element =
     (case e2id p element of
        Some k \<Rightarrow> (k, p)
      | None \<Rightarrow>
          (let v = variables p + 1
           in (v, p\<lparr>variables := v,
                    e2id := (e2id p)(element \<mapsto> v),
                    id2e := (id2e p)(v \<mapsto> element)\<rparr>)))"

definition from_id :: "'e AccessibleBSP \<Rightarrow> int \<Rightarrow> error + 'e" where
  "from_id p eid = (case id2e p eid of None \<Rightarrow> Inl KeyError | Some e \<Rightarrow> Inr e)"

text \<open>The comprehension \<open>[self.to_id(e) for e in elements]\<close>, left to right.\<close>

fun to_ids :: "'e AccessibleBSP \<Rightarrow> 'e list \<Rightarrow> int list \<times> 'e AccessibleBSP" where
  "to_ids p [] = ([], p)"
| "to_ids p (e # es) =
     (let (k, p1) = to_id p e;
          (ks, p2) = to_ids p1 es
      in (k # ks, p2))"

text \<open>
  \<open>remap_solution\<close> is called with a model (a list) and with a frozenset; both
  are iterated once and the result is a set, so the argument is taken as the
  set of its members. Any positive member without an entry in \<open>id2e\<close> raises
  \<open>KeyError\<close>.
\<close>

definition remap_solution :: "'e AccessibleBSP \<Rightarrow> int set \<Rightarrow> error + 'e set" where
  "remap_solution p solution =
     (if \<exists>i\<in>solution. 0 < i \<and> id2e p i = None then Inl KeyError
      else Inr ((\<lambda>i. the (id2e p i)) ` {i \<in> solution. 0 < i}))"

subsection \<open>\<open>itertools.combinations\<close>\<close>

text \<open>
  The library function yields the subsequences of length \<open>r\<close> of its input in
  lexicographic order of positions; a negative \<open>r\<close> raises \<open>ValueError\<close>, which
  the callers below test before calling this function on a natural number.
\<close>

fun combinations :: "'a list \<Rightarrow> nat \<Rightarrow> 'a list list" where
  "combinations xs 0 = [[]]"
| "combinations [] (Suc r) = []"
| "combinations (x # xs) (Suc r) =
     map ((#) x) (combinations xs r) @ combinations xs (Suc r)"

subsection \<open>Constraint builders\<close>

definition append_clauses :: "'e AccessibleBSP \<Rightarrow> int list list \<Rightarrow> 'e AccessibleBSP" where
  "append_clauses p cs = p\<lparr>clauses := clauses p @ cs\<rparr>"

definition mutually_excludes :: "'e AccessibleBSP \<Rightarrow> 'e list \<Rightarrow> 'e AccessibleBSP" where
  "mutually_excludes p elements =
     (let (ks, p1) = to_ids p elements
      in append_clauses p1 [map uminus ks])"

text \<open>The method \<open>includes\<close>; the name is a keyword of Isabelle, hence the suffix.\<close>

definition includes_elem :: "'e AccessibleBSP \<Rightarrow> 'e \<Rightarrow> 'e AccessibleBSP" where
  "includes_elem p element =
     (let (k, p1) = to_id p element in append_clauses p1 [[k]])"

definition includes_all :: "'e AccessibleBSP \<Rightarrow> 'e list \<Rightarrow> 'e AccessibleBSP" where
  "includes_all p elements = foldl includes_elem p elements"

text \<open>
  \<open>includes_any\<close> registers every element first; \<open>combinations\<close> then raises
  \<open>ValueError\<close> when \<open>element_len + 1 - n\<close> is negative, leaving the
  registrations in place and no clause appended.
\<close>

definition includes_any ::
  "'e AccessibleBSP \<Rightarrow> 'e list \<Rightarrow> int \<Rightarrow> error option \<times> 'e AccessibleBSP" where
  "includes_any p elements n =
     (let (ks, p1) = to_ids p elements;
          element_len = int (length ks);
          combination_length = element_len + 1 - n
      in if combination_length < 0 then (Some ValueError, p1)
         else (None, append_clauses p1 (combinations ks (nat combination_length))))"

definition excludes :: "'e AccessibleBSP \<Rightarrow> 'e \<Rightarrow> 'e AccessibleBSP" where
  "excludes p element =
     (let (k, p1) = to_id p element in append_clauses p1 [[- k]])"

definition has_codependencies :: "'e AccessibleBSP \<Rightarrow> 'e list \<Rightarrow> 'e AccessibleBSP" where
  "has_codependencies p elements =
     (let (ks, p1) = to_ids p elements
      in append_clauses p1
           (concat (map (\<lambda>c. [[c ! 0, - (c ! 1)], [- (c ! 0), c ! 1]])
                        (combinations ks 2))))"

text \<open>
  \<open>has_dependencies\<close>: the parameter \<open>n\<close> is \<open>None\<close> or an integer; \<open>None\<close>
  stands for the length of \<open>on\<close>.
\<close>

definition has_dependencies ::
  "'e AccessibleBSP \<Rightarrow> 'e \<Rightarrow> 'e list \<Rightarrow> int option
     \<Rightarrow> error option \<times> 'e AccessibleBSP" where
  "has_dependencies p element on n =
     (let (eid, p1) = to_id p element;
          (ks, p2) = to_ids p1 on;
          len_on = int (length ks);
          n' = (case n of None \<Rightarrow> len_on | Some m \<Rightarrow> m);
          r = len_on + 1 - n'
      in if r < 0 then (Some ValueError, p2)
         else (None, append_clauses p2
                       (map (\<lambda>c. [- eid] @ c) (combinations ks (nat r)))))"

subsection \<open>Meaning of literals and clauses\<close>

text \<open>
  A positive literal asserts its variable, a negative one denies it; a clause
  is the disjunction of its literals and a clause list their conjunction.
\<close>

definition lit_true :: "(int \<Rightarrow> bool) \<Rightarrow> int \<Rightarrow> bool" where
  "lit_true \<sigma> l = (if 0 < l then \<sigma> l else \<not> \<sigma> (- l))"

definition clause_sat :: "(int \<Rightarrow> bool) \<Rightarrow> int list \<Rightarrow> bool" where
  "clause_sat \<sigma> c = (\<exists>l\<in>set c. lit_true \<sigma> l)"

definition cnf_sat :: "(int \<Rightarrow> bool) \<Rightarrow> int list list \<Rightarrow> bool" where
  "cnf_sat \<sigma> cs = (\<forall>c\<in>set cs. clause_sat \<sigma> c)"

subsection \<open>The solving engine\<close>

text \<open>
  \<open>pycosat\<close> is an external library. \<open>pycosat.solve\<close> returns a model (a list
  of signed integers) or one of the strings \<open>"UNSAT"\<close> and \<open>"UNKNOWN"\<close>;
  \<open>pycosat.itersolve\<close> yields the models one after the other. Both are
  parameters of the model.
\<close>

datatype solve_result = UNSAT | UNKNOWN | Model "int list"

record engine =
  solve :: "int list list \<Rightarrow> solve_result"
  itersolve :: "int list list \<Rightarrow> int list list"

subsection \<open>Queries\<close>

definition solution :: "engine \<Rightarrow> 'e AccessibleBSP \<Rightarrow> error + 'e set" where
  "solution eng p =
     (case solve eng (clauses p) of
        UNSAT \<Rightarrow> Inl UnsatisfiableConstraints
      | UNKNOWN \<Rightarrow> Inl SolutionNotFound
      | Model m \<Rightarrow> remap_solution p (set m))"

text \<open>
  The generator \<open>solutions\<close> as the list of its steps: a step yields a set
  (\<open>Inr\<close>) or raises (\<open>Inl\<close>), and a consumer never goes past a step that
  raises. After the models, when there was none, \<open>self.solution\<close> is
  evaluated for the exception it raises; its value, if it returns one, is
  dropped.
\<close>

definition solutions :: "engine \<Rightarrow> 'e AccessibleBSP \<Rightarrow> (error + 'e set) list" where
  "solutions eng p =
     (let ms = itersolve eng (clauses p)
      in map (\<lambda>m. remap_solution p (set m)) ms
         @ (if ms = [] then (case solution eng p of Inl e \<Rightarrow> [Inl e] | Inr _ \<Rightarrow> [])
            else []))"

text \<open>
  The loop of \<open>minimal_solution\<close>. The first iteration finds \<open>last is None\<close>
  and does not evaluate the second operand of \<open>or\<close>. Every later iteration
  evaluates \<open>len(solution) < lastlen\<close>, and \<open>lastlen\<close> is bound nowhere in the
  function: \<open>NameError\<close>. The variable \<open>last\<close> is written \<open>lastv\<close>.
\<close>

fun minimal_loop :: "'e set option \<Rightarrow> (error + 'e set) list \<Rightarrow> error + 'e set option" where
  "minimal_loop lastv [] = Inr lastv"
| "minimal_loop lastv (Inl e # rest) = Inl e"
| "minimal_loop None (Inr s # rest) =
     (if s = {} then Inr (Some s) else minimal_loop (Some s) rest)"
| "minimal_loop (Some l) (Inr s # rest) = Inl NameError"

definition minimal_solution :: "engine \<Rightarrow> 'e AccessibleBSP \<Rightarrow> error + 'e set option" where
  "minimal_solution eng p = minimal_loop None (solutions eng p)"

fun maximal_loop ::
  "int \<Rightarrow> 'e set option \<Rightarrow> (error + 'e set) list \<Rightarrow> error + 'e set option" where
  "maximal_loop vars lastv [] = Inr lastv"
| "maximal_loop vars lastv (Inl e # rest) = Inl e"
| "maximal_loop vars lastv (Inr s # rest) =
     (let len_solution = card s
      in if (case lastv of None \<Rightarrow> True | Some l \<Rightarrow> card l < len_solution)
         then (if int len_solution = vars then Inr (Some s)
               else maximal_loop vars (Some s) rest)
         else maximal_loop vars lastv rest)"

definition maximal_solution :: "engine \<Rightarrow> 'e AccessibleBSP \<Rightarrow> error + 'e set option" where
  "maximal_solution eng p = maximal_loop (variables p) None (solutions eng p)"

subsection \<open>What the engine is relied on for\<close>

text \<open>
  Modelled from the spec: \<open>pycosat\<close> is not part of the repository. The spec's
  collaborator contract says that the single-model query returns a satisfying
  assignment or a sentinel for proven unsatisfiability; the module calls it
  without a propagation limit, so the third answer does not occur. The
  predicate says that the engine's answer on one clause list is of this kind.
\<close>

definition engine_decides :: "engine \<Rightarrow> int list list \<Rightarrow> bool" where
  "engine_decides eng cs \<longleftrightarrow>
     (case solve eng cs of
        UNSAT \<Rightarrow> \<not> (\<exists>\<sigma>. cnf_sat \<sigma> cs)
      | UNKNOWN \<Rightarrow> False
      | Model m \<Rightarrow> cnf_sat (\<lambda>v. v \<in> set m) cs)"

subsection \<open>Textual export\<close>

text \<open>
  The formats \<open>%d\<close> and \<open>str\<close> of an integer: its decimal digits, after a
  minus sign when it is negative.
\<close>

definition digit_char :: "nat \<Rightarrow> char" where
  "digit_char d = ''0123456789'' ! d"

function str_nat :: "nat \<Rightarrow> string" where
  "str_nat n = (if n < 10 then [digit_char n] else str_nat (n div 10) @ [digit_char (n mod 10)])"
  by pat_completeness auto
termination
  by (relation "measure id") auto

declare str_nat.simps [simp del]

definition str_int :: "int \<Rightarrow> string" where
  "str_int i = (if i < 0 then CHR ''-'' # str_nat (nat (- i)) else str_nat (nat i))"

text \<open>\<open>sep.join(xs)\<close>: the separator stands between the items, not after them.\<close>

fun join :: "string \<Rightarrow> string list \<Rightarrow> string" where
  "join sep [] = []"
| "join sep [x] = x"
| "join sep (x # y # ys) = x @ sep @ join sep (y # ys)"

text \<open>
  The property \<open>dimacs_cnf\<close>. \<open>%r\<close> and \<open>hash\<close> depend on the type of the
  elements and are parameters; so is \<open>items\<close>, the pairs of
  \<open>self.id2e.iteritems()\<close> in the order in which the dictionary yields them.
\<close>

definition dimacs_cnf ::
  "('e \<Rightarrow> string) \<Rightarrow> ('e \<Rightarrow> int) \<Rightarrow> (int \<times> 'e) list \<Rightarrow> 'e AccessibleBSP \<Rightarrow> string" where
  "dimacs_cnf repr hash items p =
     (let comment_lines =
            map (\<lambda>(key, hashable).
                   ''c '' @ str_int key @ '' = '' @ repr hashable
                   @ '' <'' @ str_int (hash hashable) @ ''>'') items;
          header = ''p cnf '' @ str_int (int (length (clauses p))) @ '' ''
                   @ str_int (variables p);
          clause_lines = map (\<lambda>clause. join '' '' (map str_int clause) @ '' 0'') (clauses p);
          lines = comment_lines @ [header] @ clause_lines
      in join [CHR 0x0A] lines @ [CHR 0x0A])"

text \<open>
  Two functions to read the export back: the lines of a text whose lines
  end with a newline, and the number a string of decimal digits denotes.
\<close>

fun text_lines :: "string \<Rightarrow> string list" where
  "text_lines [] = []"
| "text_lines (c # cs) =
     (if c = CHR 0x0A then [] # text_lines cs
      else (case text_lines cs of [] \<Rightarrow> [[c]] | l # ls \<Rightarrow> (c # l) # ls))"

definition digit_value :: "char \<Rightarrow> nat" where
  "digit_value c = of_char c - 48"

definition decimal_value :: "string \<Rightarrow> nat" where
  "decimal_value cs = foldl (\<lambda>v c. 10 * v + digit_value c) 0 cs"

subsection \<open>\<open>partition_solutions\<close>: the search\<close>

text \<open>
  A candidate is the frozenset of the positive literals of a model; a vertex
  of the search graph is a tuple of candidates.
\<close>

type_synonym vertex = "int set list"

definition positives :: "int list \<Rightarrow> int set" where
  "positives m = set (filter (\<lambda>i. 0 < i) m)"

text \<open>
  The state of the \<open>while stack\<close> loop. The stack is kept with its top first.
  The dictionary \<open>graph\<close> maps a vertex to a pair of a list object and a pool;
  the list objects are mutated by \<open>edges.append\<close> and shared between entries,
  so the entries hold addresses into a heap of lists. Addresses only arise
  from allocation; reading one outside the heap gives the empty list.
\<close>

record dfs_state =
  stack :: "vertex list"
  graph :: "vertex \<rightharpoonup> nat \<times> int set"
  heap :: "vertex list list"

definition deref :: "vertex list list \<Rightarrow> nat \<Rightarrow> vertex list" where
  "deref h a = (if a < length h then h ! a else [])"

datatype outcome = Found vertex | Exhausted | Raised error

text \<open>
  The loop \<open>for solution in candidates\<close>: the pruning test, the test for a
  complete cover, which returns from the whole method, and the append to
  \<open>edges\<close>. The loop variable \<open>solution\<close> is written \<open>sol\<close> and the list
  \<open>solutions\<close> is written \<open>sols\<close>, the longer names being those of the queries.
\<close>

fun scan_candidates ::
  "nat \<Rightarrow> vertex \<Rightarrow> int set \<Rightarrow> int set list \<Rightarrow> vertex list \<Rightarrow> vertex + vertex list" where
  "scan_candidates target_pool_size vertex pool [] edges = Inr edges"
| "scan_candidates target_pool_size vertex pool (sol # candidates) edges =
     (if int target_pool_size - int (card pool) < int (card sol)
         \<or> sol \<in> set vertex \<or> sol \<inter> pool \<noteq> {}
      then scan_candidates target_pool_size vertex pool candidates edges
      else if card pool + card sol = target_pool_size
      then Inl (vertex @ [sol])
      else scan_candidates target_pool_size vertex pool candidates
             (edges @ [vertex @ [sol]]))"

text \<open>
  The part of an iteration after \<open>edges\<close>, \<open>candidates\<close> and \<open>pool\<close> are
  bound: \<open>a\<close> is the address of \<open>edges\<close> in the heap \<open>h\<close>. The last edge
  pushed by \<open>stack.extend(edges)\<close> is the new top of the stack.
\<close>

definition visit ::
  "nat \<Rightarrow> vertex \<Rightarrow> vertex list \<Rightarrow> (vertex \<rightharpoonup> nat \<times> int set) \<Rightarrow> nat \<Rightarrow> vertex list list
     \<Rightarrow> int set list \<Rightarrow> int set \<Rightarrow> outcome + dfs_state" where
  "visit target_pool_size vertex rest g a h candidates pool =
     (case scan_candidates target_pool_size vertex pool candidates (deref h a) of
        Inl new_vertex \<Rightarrow> Inl (Found new_vertex)
      | Inr edges \<Rightarrow>
          Inr \<lparr>stack = rev edges @ rest,
               graph = g(vertex \<mapsto> (a, pool)),
               heap = h[a := edges]\<rparr>)"

text \<open>
  One iteration of \<open>while stack\<close>. \<open>graph[vertex[:-1]]\<close> raises \<open>KeyError\<close>
  when the parent has no entry, and \<open>e[-1]\<close> raises \<open>IndexError\<close> on an empty
  tuple.
\<close>

definition dfs_step :: "nat \<Rightarrow> int set list \<Rightarrow> dfs_state \<Rightarrow> outcome + dfs_state" where
  "dfs_step target_pool_size sols st =
     (case stack st of
        [] \<Rightarrow> Inl Exhausted
      | vertex # rest \<Rightarrow>
          (case graph st vertex of
             Some entry \<Rightarrow> Inr (st\<lparr>stack := rest\<rparr>)
           | None \<Rightarrow>
               if length vertex = 1
               then visit target_pool_size vertex rest (graph st)
                      (length (heap st)) (heap st @ [[]]) sols (hd vertex)
               else (case graph st (butlast vertex) of
                       None \<Rightarrow> Inl (Raised KeyError)
                     | Some (a, pool) \<Rightarrow>
                         if vertex = [] \<or> [] \<in> set (deref (heap st) a)
                         then Inl (Raised IndexError)
                         else visit target_pool_size vertex rest (graph st) a (heap st)
                                (map last (deref (heap st) a)) (pool \<union> last vertex))))"

lemma scan_candidates_edges:
  "scan_candidates t v pool cs edges = Inr edges' \<Longrightarrow>
     set edges' \<subseteq> set edges \<union> {v @ [c] | c. c \<in> set cs \<and> c \<notin> set v}"
proof (induction cs arbitrary: edges)
  case Nil
  then show ?case by simp
next
  case (Cons a cs)
  show ?case
  proof (cases "int t - int (card pool) < int (card a) \<or> a \<in> set v \<or> a \<inter> pool \<noteq> {}")
    case True
    then have "scan_candidates t v pool cs edges = Inr edges'"
      using Cons.prems by simp
    from Cons.IH[OF this] show ?thesis by auto
  next
    case False
    then have "scan_candidates t v pool cs (edges @ [v @ [a]]) = Inr edges'"
      using Cons.prems by (simp split: if_splits)
    from Cons.IH[OF this] have "set edges' \<subseteq> set edges \<union> {v @ [a]}
        \<union> {v @ [c] | c. c \<in> set cs \<and> c \<notin> set v}"
      by auto
    moreover have "a \<notin> set v" using False by simp
    ultimately show ?thesis by auto
  qed
qed

text \<open>
  The loop ends: a vertex enters \<open>graph\<close> at most once, and the vertices that
  can still enter are lists without repetition over the finitely many
  candidates in the state, of bounded length.
\<close>

definition members :: "int set list \<Rightarrow> dfs_state \<Rightarrow> int set set" where
  "members sols st =
     set sols \<union> \<Union> (set ` set (stack st)) \<union> \<Union> (set ` \<Union> (set ` set (heap st)))"

definition vertices :: "dfs_state \<Rightarrow> vertex set" where
  "vertices st = set (stack st) \<union> \<Union> (set ` set (heap st))"

definition reachable_vertices :: "int set list \<Rightarrow> dfs_state \<Rightarrow> vertex set" where
  "reachable_vertices sols st =
     {w. set w \<subseteq> members sols st \<and>
         (\<exists>v\<in>vertices st. length w \<le> length v + card (members sols st - set v))}"

definition unvisited :: "int set list \<Rightarrow> dfs_state \<Rightarrow> nat" where
  "unvisited sols st = card (reachable_vertices sols st - dom (graph st))"

lemma finite_members: "finite (members sols st)"
  by (simp add: members_def)

lemma finite_vertices: "finite (vertices st)"
  by (simp add: vertices_def)

lemma finite_reachable_vertices: "finite (reachable_vertices sols st)"
proof -
  define L where "L = Max (insert 0 ((\<lambda>v. length v + card (members sols st - set v)) ` vertices st))"
  have "reachable_vertices sols st \<subseteq> {w. set w \<subseteq> members sols st \<and> length w \<le> L}"
  proof
    fix w assume "w \<in> reachable_vertices sols st"
    then obtain v where v: "set w \<subseteq> members sols st" "v \<in> vertices st"
      "length w \<le> length v + card (members sols st - set v)"
      by (auto simp: reachable_vertices_def)
    have "length v + card (members sols st - set v) \<le> L"
      unfolding L_def using v(2) finite_vertices[of st] by (intro Max_ge) auto
    then show "w \<in> {w. set w \<subseteq> members sols st \<and> length w \<le> L}" using v by simp
  qed
  moreover have "finite {w. set w \<subseteq> members sols st \<and> length w \<le> L}"
    by (rule finite_lists_length_le[OF finite_members])
  ultimately show ?thesis by (rule finite_subset)
qed


lemma reachable_vertices_mono:
  assumes m: "members sols st' \<subseteq> members sols st"
    and v: "\<And>w. w \<in> vertices st' \<Longrightarrow>
             \<exists>v\<in>vertices st. length w + card (members sols st - set w)
                \<le> length v + card (members sols st - set v)"
  shows "reachable_vertices sols st' \<subseteq> reachable_vertices sols st"
proof
  fix w assume "w \<in> reachable_vertices sols st'"
  then obtain v' where w: "set w \<subseteq> members sols st'" "v' \<in> vertices st'"
    "length w \<le> length v' + card (members sols st' - set v')"
    by (auto simp: reachable_vertices_def)
  have "card (members sols st' - set v') \<le> card (members sols st - set v')"
    using m finite_members[of sols st] by (intro card_mono) auto
  moreover obtain u where u: "u \<in> vertices st"
    "length v' + card (members sols st - set v') \<le> length u + card (members sols st - set u)"
    using v[OF w(2)] by blast
  ultimately have "length w \<le> length u + card (members sols st - set u)"
    using w(3) by linarith
  then show "w \<in> reachable_vertices sols st"
    using w(1) m u(1) by (auto simp: reachable_vertices_def)
qed

lemma heap_update_vertices:
  "\<Union> (set ` set (h[a := edges])) \<subseteq> \<Union> (set ` set h) \<union> set edges"
  using set_update_subset_insert[of h a edges] by auto

lemma extend_potential:
  assumes "finite M" "c \<in> M" "c \<notin> set v"
  shows "length (v @ [c]) + card (M - set (v @ [c])) = length v + card (M - set v)"
proof -
  have "M - set (v @ [c]) = (M - set v) - {c}" by auto
  moreover have "c \<in> M - set v" using assms by simp
  moreover have "finite (M - set v)" using assms(1) by simp
  ultimately have "card (M - set (v @ [c])) = card (M - set v) - 1"
    and "0 < card (M - set v)"
    by (simp_all add: card_gt_0_iff) blast
  then show ?thesis by simp
qed

lemma visit_decreases:
  assumes vis: "visit t vertex rest g a h candidates pool = Inr st'"
    and st: "stack st = vertex # rest" "graph st = g" "g vertex = None"
    and ed: "set (deref h a) \<subseteq> vertices st"
    and ca: "set candidates \<subseteq> members sols st"
    and hp: "\<Union> (set ` set h) \<subseteq> \<Union> (set ` set (heap st))"
  shows "unvisited sols st' < unvisited sols st"
proof -
  obtain edges where sc: "scan_candidates t vertex pool candidates (deref h a) = Inr edges"
    and st': "st' = \<lparr>stack = rev edges @ rest, graph = g(vertex \<mapsto> (a, pool)),
                     heap = h[a := edges]\<rparr>"
    using vis by (auto simp: visit_def split: sum.splits)
  let ?M = "members sols st"
  have vin: "vertex \<in> vertices st" using st(1) by (simp add: vertices_def)
  have vM: "set vertex \<subseteq> ?M" using st(1) by (auto simp: members_def)
  have vsub: "w \<in> vertices st \<Longrightarrow> set w \<subseteq> ?M" for w
    by (auto simp: vertices_def members_def)
  have new: "w \<in> vertices st \<or> (\<exists>c. w = vertex @ [c] \<and> c \<in> ?M \<and> c \<notin> set vertex)"
    if "w \<in> set edges" for w
    using scan_candidates_edges[OF sc] that ed ca by auto
  have V': "w \<in> vertices st \<or> (\<exists>c. w = vertex @ [c] \<and> c \<in> ?M \<and> c \<notin> set vertex)"
    if "w \<in> vertices st'" for w
  proof -
    have "w \<in> set edges \<or> w \<in> set rest \<or> w \<in> \<Union> (set ` set (heap st))"
      using that heap_update_vertices[of h a edges] hp by (auto simp: vertices_def st')
    then show ?thesis using new st(1) by (auto simp: vertices_def)
  qed
  have wM: "set w \<subseteq> ?M" if "w \<in> vertices st'" for w
    using V'[OF that] vsub vM by auto
  have m: "members sols st' \<subseteq> ?M"
  proof
    fix x assume "x \<in> members sols st'"
    then have "x \<in> set sols \<or> (\<exists>w\<in>vertices st'. x \<in> set w)"
      by (auto simp: members_def vertices_def)
    then show "x \<in> ?M"
    proof
      assume "x \<in> set sols"
      then show ?thesis by (simp add: members_def)
    next
      assume "\<exists>w\<in>vertices st'. x \<in> set w"
      then obtain w where "w \<in> vertices st'" "x \<in> set w" by blast
      then show ?thesis using wM[of w] by blast
    qed
  qed
  have pot: "\<exists>v\<in>vertices st. length w + card (?M - set w) \<le> length v + card (?M - set v)"
    if "w \<in> vertices st'" for w
  proof -
    from V'[OF that] show ?thesis
    proof
      assume "w \<in> vertices st"
      then show ?thesis by blast
    next
      assume "\<exists>c. w = vertex @ [c] \<and> c \<in> ?M \<and> c \<notin> set vertex"
      then obtain c where c: "w = vertex @ [c]" "c \<in> ?M" "c \<notin> set vertex" by blast
      have "length w + card (?M - set w) = length vertex + card (?M - set vertex)"
        unfolding c(1) by (rule extend_potential[OF finite_members c(2,3)])
      then show ?thesis using vin by auto
    qed
  qed
  have R: "reachable_vertices sols st' \<subseteq> reachable_vertices sols st"
    by (rule reachable_vertices_mono[OF m pot])
  have "length vertex \<le> length vertex + card (?M - set vertex)" by simp
  then have vR: "vertex \<in> reachable_vertices sols st"
    unfolding reachable_vertices_def using vM vin by blast
  have "reachable_vertices sols st' - dom (graph st')
        \<subseteq> (reachable_vertices sols st - dom (graph st)) - {vertex}"
    using R by (auto simp: st' st(2))
  moreover have "vertex \<in> reachable_vertices sols st - dom (graph st)"
    using vR st(2,3) by (auto simp: domIff)
  ultimately have "reachable_vertices sols st' - dom (graph st')
        \<subset> reachable_vertices sols st - dom (graph st)"
    by blast
  then show ?thesis
    unfolding unvisited_def
    by (intro psubset_card_mono) (simp_all add: finite_reachable_vertices)
qed

lemma pop_decreases:
  assumes "stack st = vertex # rest"
  shows "unvisited sols (st\<lparr>stack := rest\<rparr>) \<le> unvisited sols st"
proof -
  have m: "members sols (st\<lparr>stack := rest\<rparr>) \<subseteq> members sols st"
    using assms by (auto simp: members_def)
  have v: "vertices (st\<lparr>stack := rest\<rparr>) \<subseteq> vertices st"
    using assms by (auto simp: vertices_def)
  have "reachable_vertices sols (st\<lparr>stack := rest\<rparr>) \<subseteq> reachable_vertices sols st"
    by (rule reachable_vertices_mono[OF m]) (use v in blast)
  then have "reachable_vertices sols (st\<lparr>stack := rest\<rparr>) - dom (graph (st\<lparr>stack := rest\<rparr>))
      \<subseteq> reachable_vertices sols st - dom (graph st)"
    by auto
  then show ?thesis
    unfolding unvisited_def
    by (intro card_mono) (simp_all add: finite_reachable_vertices)
qed

lemma dfs_step_decreases:
  assumes "dfs_step t sols st = Inr st'"
  shows "unvisited sols st' < unvisited sols st
       \<or> (unvisited sols st' \<le> unvisited sols st \<and> length (stack st') < length (stack st))"
proof (cases "stack st")
  case Nil
  then show ?thesis using assms by (simp add: dfs_step_def)
next
  case (Cons vertex rest)
  show ?thesis
  proof (cases "graph st vertex")
    case (Some entry)
    then have "st' = st\<lparr>stack := rest\<rparr>" using assms Cons by (simp add: dfs_step_def)
    then show ?thesis using pop_decreases[OF Cons, of sols] Cons by simp
  next
    case None
    show ?thesis
    proof (cases "length vertex = 1")
      case True
      then have vis: "visit t vertex rest (graph st) (length (heap st)) (heap st @ [[]])
                   sols (hd vertex) = Inr st'"
        using assms Cons None by (simp add: dfs_step_def)
      have "unvisited sols st' < unvisited sols st"
      proof (rule visit_decreases[OF vis Cons refl None])
        show "set (deref (heap st @ [[]]) (length (heap st))) \<subseteq> vertices st"
          by (simp add: deref_def)
        show "set sols \<subseteq> members sols st" by (auto simp: members_def)
        show "\<Union> (set ` set (heap st @ [[]])) \<subseteq> \<Union> (set ` set (heap st))" by simp
      qed
      then show ?thesis by simp
    next
      case False
      then obtain a pool where par: "graph st (butlast vertex) = Some (a, pool)"
        and ok: "vertex \<noteq> []" "[] \<notin> set (deref (heap st) a)"
        and vis: "visit t vertex rest (graph st) a (heap st)
                   (map last (deref (heap st) a)) (pool \<union> last vertex) = Inr st'"
        using assms Cons None
        by (auto simp: dfs_step_def split: option.splits if_splits)
      have d: "set (deref (heap st) a) \<subseteq> \<Union> (set ` set (heap st))"
      proof (cases "a < length (heap st)")
        case True
        have "set (heap st ! a) \<subseteq> \<Union> (set ` set (heap st))"
          using nth_mem[OF True] by blast
        then show ?thesis using True by (simp add: deref_def)
      next
        case False
        then show ?thesis by (simp add: deref_def)
      qed
      have "unvisited sols st' < unvisited sols st"
      proof (rule visit_decreases[OF vis Cons refl None])
        show "set (deref (heap st) a) \<subseteq> vertices st"
          using d by (auto simp: vertices_def)
        show "set (map last (deref (heap st) a)) \<subseteq> members sols st"
        proof
          fix x assume "x \<in> set (map last (deref (heap st) a))"
          then obtain e where e: "e \<in> set (deref (heap st) a)" "x = last e" by auto
          then have "e \<noteq> []" using ok(2) by auto
          then have "x \<in> set e" using e(2) by simp
          then show "x \<in> members sols st" using e(1) d by (auto simp: members_def)
        qed
        show "\<Union> (set ` set (heap st)) \<subseteq> \<Union> (set ` set (heap st))" by simp
      qed
      then show ?thesis by simp
    qed
  qed
qed

function dfs_loop :: "nat \<Rightarrow> int set list \<Rightarrow> dfs_state \<Rightarrow> outcome" where
  "dfs_loop target_pool_size sols st =
     (case dfs_step target_pool_size sols st of
        Inl result \<Rightarrow> result
      | Inr st' \<Rightarrow> dfs_loop target_pool_size sols st')"
  by pat_completeness auto
termination
proof (relation "inv_image (less_than <*lex*> less_than)
                  (\<lambda>(t, sols, st). (unvisited sols st, length (stack st)))")
  show "wf (inv_image (less_than <*lex*> less_than)
             (\<lambda>(t, sols, st). (unvisited sols st, length (stack st))))"
    by (intro wf_inv_image wf_lex_prod wf_less_than)
next
  fix target_pool_size sols st st'
  assume "dfs_step target_pool_size sols st = Inr st'"
  from dfs_step_decreases[OF this]
  show "((target_pool_size, sols, st'), (target_pool_size, sols, st))
          \<in> inv_image (less_than <*lex*> less_than)
               (\<lambda>(t, sols, st). (unvisited sols st, length (stack st)))"
    by auto
qed

declare dfs_loop.simps [simp del]

text \<open>
  The loop \<open>for solution in solutions\<close>: a new stack and a new \<open>graph\<close> for
  each starting candidate.
\<close>

fun search_from :: "nat \<Rightarrow> int set list \<Rightarrow> int set list \<Rightarrow> outcome" where
  "search_from target_pool_size sols [] = Exhausted"
| "search_from target_pool_size sols (sol # rest) =
     (case dfs_loop target_pool_size sols
             \<lparr>stack = [[sol]], graph = Map.empty, heap = []\<rparr> of
        Exhausted \<Rightarrow> search_from target_pool_size sols rest
      | result \<Rightarrow> result)"

text \<open>The comprehension \<open>[self.remap_solution(s) for s in new_vertex]\<close>.\<close>

fun remap_all :: "'e AccessibleBSP \<Rightarrow> int set list \<Rightarrow> error + 'e set list" where
  "remap_all p [] = Inr []"
| "remap_all p (s # ss) =
     (case remap_solution p s of
        Inl e \<Rightarrow> Inl e
      | Inr g \<Rightarrow> (case remap_all p ss of Inl e \<Rightarrow> Inl e | Inr gs \<Rightarrow> Inr (g # gs)))"

text \<open>
  The first loop of \<open>partition_solutions\<close> builds the list \<open>solutions\<close> of
  candidates: the positive literals of each model, kept when there is no
  \<open>max_group_size\<close> or the set is no larger than it. \<open>max_group_size\<close> is
  \<open>None\<close> or an integer.
\<close>

definition candidates_of :: "engine \<Rightarrow> 'e AccessibleBSP \<Rightarrow> int option \<Rightarrow> int set list" where
  "candidates_of eng p max_group_size =
     filter (\<lambda>solset. case max_group_size of None \<Rightarrow> True | Some g \<Rightarrow> int (card solset) \<le> g)
       (map positives (itersolve eng (clauses p)))"

text \<open>
  \<open>partition_solutions\<close>. \<open>actually_had_solution\<close> is true when the engine
  yielded a model. When no candidate is left and the engine had yielded no
  model, \<open>self.solution\<close> is evaluated for its exception; if it returns, the
  loop over the empty candidate list does nothing and the final \<open>raise\<close> is
  reached. The sort is stable, as Python's is.
\<close>

definition partition_solutions ::
  "engine \<Rightarrow> 'e AccessibleBSP \<Rightarrow> int option \<Rightarrow> error + 'e set list" where
  "partition_solutions eng p max_group_size =
     (let sols = candidates_of eng p max_group_size;
          actually_had_solution = (itersolve eng (clauses p) \<noteq> [])
      in if sols = [] then
           (if actually_had_solution then Inl ValueError
            else (case solution eng p of
                    Inl e \<Rightarrow> Inl e
                  | Inr s \<Rightarrow> Inl UnsatisfiableConstraints))
         else if length sols = 1 then remap_all p [sols ! 0]
         else
           (let target_pool_size = card (\<Union> (set sols));
                sorted = sort_key (\<lambda>x. - int (card x)) sols
            in case search_from target_pool_size sorted sorted of
                 Found new_vertex \<Rightarrow> remap_all p new_vertex
               | Exhausted \<Rightarrow> Inl UnsatisfiableConstraints
               | Raised e \<Rightarrow> Inl e))"

section \<open>The registry invariant\<close>

text \<open>
  Every state the methods can build keeps the two dictionaries inverse to each
  other, with the identifiers \<open>1 .. variables\<close> in use.
\<close>

definition registry_ok :: "'e AccessibleBSP \<Rightarrow> bool" where
  "registry_ok p \<longleftrightarrow>
     0 \<le> variables p \<and> dom (id2e p) = {1..variables p} \<and>
     (\<forall>e k. e2id p e = Some k \<longleftrightarrow> id2e p k = Some e)"

lemma registry_ok_init: "registry_ok init"
  by (simp add: registry_ok_def init_def)

lemma registry_ok_fresh:
  assumes "registry_ok p"
  shows "id2e p (variables p + 1) = None"
proof -
  have "variables p + 1 \<notin> {1..variables p}" by simp
  then have "variables p + 1 \<notin> dom (id2e p)" using assms by (simp add: registry_ok_def)
  then show ?thesis by (simp add: domIff)
qed

lemma registry_ok_to_id:
  assumes "registry_ok p"
  shows "registry_ok (snd (to_id p e))"
proof (cases "e2id p e")
  case (Some k)
  then show ?thesis using assms by (simp add: to_id_def)
next
  case None
  let ?v = "variables p + 1"
  let ?q = "p\<lparr>variables := ?v, e2id := (e2id p)(e \<mapsto> ?v), id2e := (id2e p)(?v \<mapsto> e)\<rparr>"
  have q: "snd (to_id p e) = ?q" using None by (simp add: to_id_def Let_def)
  have fresh: "id2e p ?v = None" by (rule registry_ok_fresh[OF assms])
  have noe: "id2e p k \<noteq> Some e" for k
  proof
    assume "id2e p k = Some e"
    then have "e2id p e = Some k" using assms by (simp add: registry_ok_def)
    then show False using None by simp
  qed
  have inv: "e2id p x = Some k \<longleftrightarrow> id2e p k = Some x" for x k
    using assms by (simp add: registry_ok_def)
  have a: "0 \<le> variables ?q" using assms by (simp add: registry_ok_def)
  have "dom (id2e p) = {1..variables p}" using assms by (simp add: registry_ok_def)
  moreover have "insert ?v {1..variables p} = {1..?v}"
    using assms by (auto simp: registry_ok_def)
  ultimately have b: "dom (id2e ?q) = {1..variables ?q}" by simp
  have c: "e2id ?q x = Some k \<longleftrightarrow> id2e ?q k = Some x" for x k
  proof (cases "x = e")
    case True
    show ?thesis
    proof (cases "k = ?v")
      case True
      then show ?thesis using \<open>x = e\<close> by simp
    next
      case False
      then show ?thesis using \<open>x = e\<close> noe[of k] by auto
    qed
  next
    case False
    show ?thesis
    proof (cases "k = ?v")
      case True
      have "e2id p x \<noteq> Some ?v" using inv[of x ?v] fresh by simp
      then show ?thesis using True False by auto
    next
      case False
      then show ?thesis using \<open>x \<noteq> e\<close> inv[of x k] by simp
    qed
  qed
  show ?thesis unfolding q registry_ok_def using a b c by blast
qed

lemma to_id_clauses: "clauses (snd (to_id p e)) = clauses p"
  by (simp add: to_id_def Let_def split: option.splits)

lemma to_id_result: "e2id (snd (to_id p e)) e = Some (fst (to_id p e))"
  by (simp add: to_id_def Let_def split: option.splits)

lemma to_id_keeps:
  "e2id p x = Some k \<Longrightarrow> e2id (snd (to_id p e)) x = Some k"
  by (auto simp add: to_id_def Let_def split: option.splits)

lemma registry_ok_pos:
  assumes "registry_ok p" "e2id p e = Some k"
  shows "0 < k \<and> k \<le> variables p"
proof -
  have "id2e p k = Some e" using assms by (simp add: registry_ok_def)
  then have "k \<in> dom (id2e p)" by (simp add: domIff)
  then have "k \<in> {1..variables p}" using assms by (simp add: registry_ok_def)
  then show ?thesis by simp
qed

lemma to_id_pos: "registry_ok p \<Longrightarrow> 0 < fst (to_id p e)"
  using registry_ok_pos[OF registry_ok_to_id to_id_result, of p e] by simp

lemma to_ids_registry_ok: "registry_ok p \<Longrightarrow> registry_ok (snd (to_ids p es))"
  by (induction es arbitrary: p) (simp_all add: split_beta Let_def registry_ok_to_id)

lemma to_ids_clauses: "clauses (snd (to_ids p es)) = clauses p"
  by (induction es arbitrary: p) (simp_all add: split_beta Let_def to_id_clauses)

lemma to_ids_keeps: "e2id p x = Some k \<Longrightarrow> e2id (snd (to_ids p es)) x = Some k"
  by (induction es arbitrary: p) (simp_all add: split_beta Let_def to_id_keeps)

lemma to_ids_length: "length (fst (to_ids p es)) = length es"
  by (induction es arbitrary: p) (simp_all add: split_beta Let_def)

lemma to_ids_ids:
  "fst (to_ids p es) = map (\<lambda>e. the (e2id (snd (to_ids p es)) e)) es"
proof (induction es arbitrary: p)
  case Nil
  show ?case by simp
next
  case (Cons e es)
  have "e2id (snd (to_ids (snd (to_id p e)) es)) e = Some (fst (to_id p e))"
    by (rule to_ids_keeps[OF to_id_result])
  then show ?case using Cons[of "snd (to_id p e)"] by (simp add: split_beta Let_def)
qed

lemma to_ids_registered:
  "e \<in> set es \<Longrightarrow> e2id (snd (to_ids p es)) e \<noteq> None"
proof (induction es arbitrary: p)
  case Nil
  then show ?case by simp
next
  case (Cons a es)
  show ?case
  proof (cases "e = a")
    case True
    have "e2id (snd (to_ids (snd (to_id p a)) es)) a = Some (fst (to_id p a))"
      by (rule to_ids_keeps[OF to_id_result])
    then show ?thesis using True by (simp add: split_beta Let_def)
  next
    case False
    then have "e \<in> set es" using Cons.prems by simp
    then show ?thesis using Cons.IH[of "snd (to_id p a)"] by (simp add: split_beta Let_def)
  qed
qed

lemma registry_ok_var_pos:
  assumes "registry_ok p" "e2id p e \<noteq> None"
  shows "0 < the (e2id p e)"
  using assms registry_ok_pos[of p e] by auto

lemma registry_ok_var_inj:
  assumes "registry_ok p" "e2id p a \<noteq> None" "e2id p b \<noteq> None"
    "the (e2id p a) = the (e2id p b)"
  shows "a = b"
proof -
  obtain k where k: "e2id p a = Some k" "e2id p b = Some k" using assms by auto
  then have "id2e p k = Some a" "id2e p k = Some b" using assms(1) by (simp_all add: registry_ok_def)
  then show ?thesis by simp
qed

lemma clause_sat_negated:
  assumes "\<forall>k\<in>set ks. 0 < k"
  shows "clause_sat \<sigma> (map uminus ks) \<longleftrightarrow> \<not> (\<forall>k\<in>set ks. \<sigma> k)"
proof -
  have "lit_true \<sigma> (- k) = (\<not> \<sigma> k)" if "k \<in> set ks" for k
    using assms that by (auto simp: lit_true_def)
  then have "(\<exists>k\<in>set ks. lit_true \<sigma> (- k)) \<longleftrightarrow> (\<exists>k\<in>set ks. \<not> \<sigma> k)"
    by blast
  then show ?thesis by (simp add: clause_sat_def)
qed

lemma cnf_sat_append: "cnf_sat \<sigma> (cs @ ds) \<longleftrightarrow> cnf_sat \<sigma> cs \<and> cnf_sat \<sigma> ds"
  by (auto simp: cnf_sat_def)

lemma cnf_sat_single: "cnf_sat \<sigma> [c] \<longleftrightarrow> clause_sat \<sigma> c"
  by (simp add: cnf_sat_def)


section \<open>Combinations and the cardinality encoding\<close>

text \<open>
  The combinations of length \<open>r\<close> of a list without repetition are the
  subsets of size \<open>r\<close> of its members, each exactly once. Clauses built from
  the combinations of length \<open>m + 1 - n\<close> of \<open>m\<close> variables hold together
  exactly when at least \<open>n\<close> of the variables are true.
\<close>

lemma combinations_member:
  "c \<in> set (combinations xs r) \<Longrightarrow>
     length c = r \<and> set c \<subseteq> set xs \<and> (distinct xs \<longrightarrow> distinct c)"
proof (induction xs r arbitrary: c rule: combinations.induct)
  case (1 xs)
  then show ?case by simp
next
  case (2 r)
  then show ?case by simp
next
  case (3 x xs r)
  from "3.prems" consider
    (hd) c' where "c = x # c'" "c' \<in> set (combinations xs r)"
    | (tl) "c \<in> set (combinations xs (Suc r))"
    by auto
  then show ?case
  proof cases
    case hd
    then show ?thesis using "3.IH"(1)[of c'] by auto
  next
    case tl
    then show ?thesis using "3.IH"(2)[of c] by auto
  qed
qed

lemma combinations_complete:
  "distinct xs \<Longrightarrow> S \<subseteq> set xs \<Longrightarrow> card S = r \<Longrightarrow>
     \<exists>c\<in>set (combinations xs r). set c = S"
proof (induction xs r arbitrary: S rule: combinations.induct)
  case (1 xs)
  have "finite S" using "1.prems"(2) finite_subset by blast
  then have "S = {}" using "1.prems"(3) by simp
  then show ?case by simp
next
  case (2 r)
  then show ?case by simp
next
  case (3 x xs r)
  have fin: "finite S" using "3.prems"(2) finite_subset by blast
  show ?case
  proof (cases "x \<in> S")
    case True
    have "S - {x} \<subseteq> set xs" using "3.prems"(2) by auto
    moreover have "card (S - {x}) = r" using True fin "3.prems"(3) by simp
    moreover have "distinct xs" using "3.prems"(1) by simp
    ultimately obtain c where c: "c \<in> set (combinations xs r)" "set c = S - {x}"
      using "3.IH"(1)[of "S - {x}"] by blast
    have "x # c \<in> set (combinations (x # xs) (Suc r))" using c(1) by simp
    moreover have "set (x # c) = S" using c(2) True by auto
    ultimately show ?thesis by blast
  next
    case False
    then have "S \<subseteq> set xs" using "3.prems"(2) by auto
    moreover have "distinct xs" using "3.prems"(1) by simp
    ultimately obtain c where c: "c \<in> set (combinations xs (Suc r))" "set c = S"
      using "3.IH"(2)[of S] "3.prems"(3) by blast
    then show ?thesis by auto
  qed
qed

lemma combinations_length: "length (combinations xs r) = length xs choose r"
  by (induction xs r rule: combinations.induct) simp_all

lemma combinations_sets:
  assumes "distinct xs"
  shows "set (map set (combinations xs r)) = {S. S \<subseteq> set xs \<and> card S = r}"
proof (intro set_eqI iffI)
  fix S assume "S \<in> set (map set (combinations xs r))"
  then obtain c where c: "c \<in> set (combinations xs r)" "S = set c" by auto
  from combinations_member[OF c(1)] assms
  have "length c = r" "set c \<subseteq> set xs" "distinct c" by simp_all
  then show "S \<in> {S. S \<subseteq> set xs \<and> card S = r}"
    using c(2) distinct_card[of c] by simp
next
  fix S assume "S \<in> {S. S \<subseteq> set xs \<and> card S = r}"
  then obtain c where "c \<in> set (combinations xs r)" "set c = S"
    using combinations_complete[OF assms, of S r] by auto
  then show "S \<in> set (map set (combinations xs r))" by auto
qed

lemma combinations_one_per_subset:
  assumes "distinct xs"
  shows "distinct (map set (combinations xs r))"
proof -
  have "card (set (map set (combinations xs r))) = card (set xs) choose r"
    unfolding combinations_sets[OF assms] by (rule n_subsets) simp
  also have "\<dots> = length (map set (combinations xs r))"
    using assms by (simp add: combinations_length distinct_card)
  finally show ?thesis by (rule card_distinct)
qed

lemma clause_sat_positive:
  assumes "\<forall>l\<in>set c. 0 < l"
  shows "clause_sat \<sigma> c \<longleftrightarrow> (\<exists>l\<in>set c. \<sigma> l)"
  using assms by (auto simp: clause_sat_def lit_true_def)

lemma at_least_encoding:
  fixes ks :: "int list"
  assumes d: "distinct ks" and pos: "\<forall>k\<in>set ks. 0 < k" and n: "n \<le> length ks"
  shows "cnf_sat \<sigma> (combinations ks (length ks + 1 - n)) \<longleftrightarrow> n \<le> card {k \<in> set ks. \<sigma> k}"
proof -
  define r where "r = length ks + 1 - n"
  define T where "T = {k \<in> set ks. \<sigma> k}"
  define F where "F = {k \<in> set ks. \<not> \<sigma> k}"
  have fin: "finite T" "finite F" by (simp_all add: T_def F_def)
  have "T \<union> F = set ks" "T \<inter> F = {}" by (auto simp: T_def F_def)
  then have "card T + card F = card (set ks)" using card_Un_disjoint[OF fin] by simp
  then have sum: "card T + card F = length ks" using d by (simp add: distinct_card)
  have cpos: "\<forall>l\<in>set c. 0 < l" if "c \<in> set (combinations ks r)" for c
    using combinations_member[OF that] pos by blast
  show ?thesis unfolding r_def[symmetric] T_def[symmetric]
  proof
    assume sat: "cnf_sat \<sigma> (combinations ks r)"
    show "n \<le> card T"
    proof (rule ccontr)
      assume "\<not> n \<le> card T"
      then have "r \<le> card F" using sum n by (simp add: r_def)
      then obtain S where S: "S \<subseteq> F" "card S = r"
        using obtain_subset_with_card_n by blast
      have "S \<subseteq> set ks" using S(1) by (auto simp: F_def)
      then obtain c where c: "c \<in> set (combinations ks r)" "set c = S"
        using combinations_complete[OF d _ S(2)] by blast
      have "clause_sat \<sigma> c" using sat c(1) by (simp add: cnf_sat_def)
      then obtain l where "l \<in> set c" "\<sigma> l"
        using clause_sat_positive[OF cpos[OF c(1)]] by blast
      then show False using c(2) S(1) by (auto simp: F_def)
    qed
  next
    assume le: "n \<le> card T"
    show "cnf_sat \<sigma> (combinations ks r)"
      unfolding cnf_sat_def
    proof
      fix c assume c: "c \<in> set (combinations ks r)"
      from combinations_member[OF c] d
      have cc: "length c = r" "set c \<subseteq> set ks" "distinct c" by simp_all
      have "card (set c) = r" using cc by (simp add: distinct_card)
      moreover have "card F < r" using sum le n by (simp add: r_def)
      ultimately have "\<not> set c \<subseteq> F"
        using card_mono[OF fin(2), of "set c"] by auto
      then obtain l where "l \<in> set c" "\<sigma> l" using cc(2) by (auto simp: F_def)
      then show "clause_sat \<sigma> c" using clause_sat_positive[OF cpos[OF c]] by blast
    qed
  qed
qed

section \<open>Registry: identifiers in order of first occurrence\<close>

text \<open>
  Claim C7. Three distinct elements passed to \<open>to_id\<close> of a new problem in the
  order x, y, z get the identifiers 1, 2, 3. In every state that keeps the
  registry invariant: a second call of \<open>to_id\<close> on an element returns the
  identifier of the first call and leaves the state as it is; \<open>from_id\<close> of
  the identifier that \<open>to_id\<close> returned is the element, also after other
  elements have been registered; and \<open>from_id\<close> of an identifier that no
  element was given raises \<open>KeyError\<close>.
\<close>

theorem to_id_from_id_registry:
  assumes "registry_ok p"
  shows "(distinct [x, y, z] \<longrightarrow> fst (to_ids init [x, y, z]) = [1, 2, 3])
       \<and> to_id (snd (to_id p e)) e = to_id p e
       \<and> from_id (snd (to_id p e)) (fst (to_id p e)) = Inr e
       \<and> (e2id p e = Some k \<longrightarrow>
            to_id p e = (k, p) \<and> from_id p k = Inr e
            \<and> fst (to_id (snd (to_id p e')) e) = k)
       \<and> ((\<forall>a. e2id p a \<noteq> Some j) \<longrightarrow> from_id p j = Inl KeyError)"
proof (intro conjI impI)
  assume "distinct [x, y, z]"
  then show "fst (to_ids init [x, y, z]) = [1, 2, 3]"
    by (auto simp add: to_id_def init_def Let_def)
next
  show "to_id (snd (to_id p e)) e = to_id p e"
    using to_id_result[of p e] by (simp add: to_id_def[of "snd (to_id p e)"])
next
  have "registry_ok (snd (to_id p e))" by (rule registry_ok_to_id[OF assms])
  then have "id2e (snd (to_id p e)) (fst (to_id p e)) = Some e"
    using to_id_result[of p e] by (simp add: registry_ok_def)
  then show "from_id (snd (to_id p e)) (fst (to_id p e)) = Inr e"
    by (simp add: from_id_def)
next
  assume k: "e2id p e = Some k"
  then show "to_id p e = (k, p)" by (simp add: to_id_def)
  have "id2e p k = Some e" using k assms by (simp add: registry_ok_def)
  then show "from_id p k = Inr e" by (simp add: from_id_def)
  have "e2id (snd (to_id p e')) e = Some k" by (rule to_id_keeps[OF k])
  then show "fst (to_id (snd (to_id p e')) e) = k" by (simp add: to_id_def)
next
  assume "\<forall>a. e2id p a \<noteq> Some j"
  then have "id2e p j = None" using assms by (cases "id2e p j") (auto simp: registry_ok_def)
  then show "from_id p j = Inl KeyError" by (simp add: from_id_def)
qed

theorem to_id_from_id_registry_witness:
  "registry_ok (snd (to_id (init :: string AccessibleBSP) ''x''))
   \<and> distinct [''x'', ''y'', ''z'']
   \<and> fst (to_ids (init :: string AccessibleBSP) [''x'', ''y'', ''z'']) = [1, 2, 3]
   \<and> e2id (snd (to_id (init :: string AccessibleBSP) ''x'')) ''x'' = Some 1
   \<and> from_id (snd (to_id (init :: string AccessibleBSP) ''x'')) 1 = Inr ''x''
   \<and> fst (to_id (snd (to_id (snd (to_id (init :: string AccessibleBSP) ''x'')) ''y'')) ''x'') = 1
   \<and> (\<forall>a. e2id (snd (to_id (init :: string AccessibleBSP) ''x'')) a \<noteq> Some 2)
   \<and> from_id (snd (to_id (init :: string AccessibleBSP) ''x'')) 2 = Inl KeyError"
proof -
  let ?p = "snd (to_id (init :: string AccessibleBSP) ''x'')"
  have ok: "registry_ok ?p" by (rule registry_ok_to_id[OF registry_ok_init])
  have k: "e2id ?p ''x'' = Some 1" by (simp add: to_id_def init_def Let_def)
  have d: "distinct [''x'', ''y'', ''z'']" by simp
  have n: "\<forall>a. e2id ?p a \<noteq> Some 2" by (simp add: to_id_def init_def Let_def)
  show ?thesis
    using to_id_from_id_registry[OF ok, of "''x''" "''y''" "''z''" "''x''" 1 "''y''" 2] ok k d n
    by blast
qed

section \<open>\<open>mutually_excludes\<close>\<close>

lemma mutually_excludes_clauses:
  "clauses (mutually_excludes p es) =
     clauses p @ [map (\<lambda>e. - the (e2id (mutually_excludes p es) e)) es]"
proof -
  have "e2id (mutually_excludes p es) = e2id (snd (to_ids p es))"
    by (simp add: mutually_excludes_def append_clauses_def split_beta)
  then show ?thesis
    using to_ids_ids[of p es] to_ids_clauses[of p es]
    by (simp add: mutually_excludes_def append_clauses_def split_beta comp_def)
qed

lemma mutually_excludes_registry:
  "e2id (mutually_excludes p es) = e2id (snd (to_ids p es))"
  "id2e (mutually_excludes p es) = id2e (snd (to_ids p es))"
  "variables (mutually_excludes p es) = variables (snd (to_ids p es))"
  by (simp_all add: mutually_excludes_def append_clauses_def split_beta)

lemma registry_ok_append_clauses:
  "registry_ok (append_clauses p cs) = registry_ok p"
  by (simp add: registry_ok_def append_clauses_def)

text \<open>
  Claim C3. \<open>mutually_excludes\<close> appends exactly one clause, the negated
  variable of every listed element. An assignment satisfies the new clause
  list if and only if it satisfies the old one and does not make every
  listed element true. For three distinct elements a, b, c there is an
  assignment with a and b true and c false that satisfies the new clause.
\<close>

theorem mutually_excludes_forbids_all_true_only:
  assumes "registry_ok p"
  shows "clauses (mutually_excludes p elements) =
           clauses p @ [map (\<lambda>e. - the (e2id (mutually_excludes p elements) e)) elements]
       \<and> (cnf_sat \<sigma> (clauses (mutually_excludes p elements)) \<longleftrightarrow>
            cnf_sat \<sigma> (clauses p) \<and>
            \<not> (\<forall>e\<in>set elements. \<sigma> (the (e2id (mutually_excludes p elements) e))))
       \<and> (elements = [a, b, c] \<and> distinct [a, b, c] \<longrightarrow>
            (\<exists>\<tau>. \<tau> (the (e2id (mutually_excludes p elements) a))
                \<and> \<tau> (the (e2id (mutually_excludes p elements) b))
                \<and> \<not> \<tau> (the (e2id (mutually_excludes p elements) c))
                \<and> clause_sat \<tau> (last (clauses (mutually_excludes p elements)))))"
proof -
  define q where "q = mutually_excludes p elements"
  define var where "var = (\<lambda>e. the (e2id q e))"
  have ok: "registry_ok q"
    using to_ids_registry_ok[OF assms, of elements]
    by (simp add: q_def mutually_excludes_def split_beta registry_ok_append_clauses)
  have reg: "e2id q e \<noteq> None" if "e \<in> set elements" for e
    using to_ids_registered[OF that, of p] by (simp add: q_def mutually_excludes_registry)
  have pos: "\<forall>k\<in>set (map var elements). 0 < k"
    using registry_ok_var_pos[OF ok reg] by (simp add: var_def)
  have cl0: "clauses q = clauses p @ [map (\<lambda>e. - var e) elements]"
    unfolding q_def var_def by (rule mutually_excludes_clauses)
  have cl: "clauses q = clauses p @ [map uminus (map var elements)]"
    unfolding cl0 by (simp add: comp_def)
  have neg: "clause_sat \<tau> (map uminus (map var elements)) \<longleftrightarrow>
      \<not> (\<forall>e\<in>set elements. \<tau> (var e))" for \<tau>
    using clause_sat_negated[OF pos, of \<tau>] by simp
  have sem: "cnf_sat \<sigma> (clauses q) \<longleftrightarrow>
      cnf_sat \<sigma> (clauses p) \<and> \<not> (\<forall>e\<in>set elements. \<sigma> (var e))"
    unfolding cl cnf_sat_append cnf_sat_single neg ..
  have abc: "\<exists>\<tau>. \<tau> (var a) \<and> \<tau> (var b) \<and> \<not> \<tau> (var c) \<and> clause_sat \<tau> (last (clauses q))"
    if e: "elements = [a, b, c]" and d: "distinct [a, b, c]"
  proof -
    have ra: "e2id q a \<noteq> None" and rb: "e2id q b \<noteq> None" and rc: "e2id q c \<noteq> None"
      using reg e by simp_all
    have "var c \<noteq> var a"
      using registry_ok_var_inj[OF ok rc ra] d unfolding var_def by auto
    moreover have "var c \<noteq> var b"
      using registry_ok_var_inj[OF ok rc rb] d unfolding var_def by auto
    moreover have "clause_sat (\<lambda>v. v \<noteq> var c) (map uminus (map var elements))"
      unfolding neg using e by simp
    then have "clause_sat (\<lambda>v. v \<noteq> var c) (last (clauses q))"
      unfolding cl by simp
    ultimately show ?thesis by (intro exI[of _ "\<lambda>v. v \<noteq> var c"]) simp
  qed
  have "clauses q = clauses p @ [map (\<lambda>e. - var e) elements]
       \<and> (cnf_sat \<sigma> (clauses q) \<longleftrightarrow>
            cnf_sat \<sigma> (clauses p) \<and> \<not> (\<forall>e\<in>set elements. \<sigma> (var e)))
       \<and> (elements = [a, b, c] \<and> distinct [a, b, c] \<longrightarrow>
            (\<exists>\<tau>. \<tau> (var a) \<and> \<tau> (var b) \<and> \<not> \<tau> (var c)
                \<and> clause_sat \<tau> (last (clauses q))))"
    using cl0 sem abc by blast
  then show ?thesis unfolding var_def q_def .
qed


theorem mutually_excludes_forbids_all_true_only_witness:
  "registry_ok (init :: string AccessibleBSP)
   \<and> clauses (mutually_excludes (init :: string AccessibleBSP) [''a'', ''b'', ''c''])
       = [[- 1, - 2, - 3]]
   \<and> cnf_sat (\<lambda>v. v \<noteq> 3)
        (clauses (mutually_excludes (init :: string AccessibleBSP) [''a'', ''b'', ''c'']))
   \<and> \<not> cnf_sat (\<lambda>v. True)
        (clauses (mutually_excludes (init :: string AccessibleBSP) [''a'', ''b'', ''c'']))"
proof -
  define q where "q = mutually_excludes (init :: string AccessibleBSP) [''a'', ''b'', ''c'']"
  have ids: "e2id q ''a'' = Some 1" "e2id q ''b'' = Some 2" "e2id q ''c'' = Some 3"
    by (simp_all add: q_def mutually_excludes_def append_clauses_def to_id_def init_def Let_def)
  have c0: "cnf_sat \<tau> (clauses (init :: string AccessibleBSP))" for \<tau>
    by (simp add: cnf_sat_def init_def)
  have cl0: "clauses (init :: string AccessibleBSP) = []" by (simp add: init_def)
  note t = mutually_excludes_forbids_all_true_only[OF registry_ok_init,
      of "[''a'', ''b'', ''c'']", folded q_def]
  have "clauses q = [[- 1, - 2, - 3]]"
    using t[of "\<lambda>v. True" "''a''" "''b''" "''c''", THEN conjunct1] ids cl0 by simp
  moreover have "cnf_sat (\<lambda>v. v \<noteq> 3) (clauses q)"
    using t[of "\<lambda>v. v \<noteq> 3" "''a''" "''b''" "''c''", THEN conjunct2, THEN conjunct1] ids c0
    by simp
  moreover have "\<not> cnf_sat (\<lambda>v. True) (clauses q)"
    using t[of "\<lambda>v. True" "''a''" "''b''" "''c''", THEN conjunct2, THEN conjunct1] by simp
  ultimately show ?thesis using registry_ok_init unfolding q_def by blast
qed

section \<open>Empty collections\<close>

lemma includes_any_empty: "includes_any p [] 1 = (None, append_clauses p [[]])"
  by (simp add: includes_any_def)

lemma mutually_excludes_empty: "mutually_excludes p [] = append_clauses p [[]]"
  by (simp add: mutually_excludes_def)

lemma empty_clause_unsat: "\<not> clause_sat \<sigma> []"
  by (simp add: clause_sat_def)

lemma engine_decides_unsat:
  assumes "engine_decides eng cs" "\<forall>\<sigma>. \<not> cnf_sat \<sigma> cs"
  shows "solve eng cs = UNSAT"
  using assms by (cases "solve eng cs") (simp_all add: engine_decides_def)

text \<open>
  Claim C10. \<open>mutually_excludes\<close> of an empty collection, and \<open>includes_any\<close>
  of an empty collection with \<open>n = 1\<close>, append the empty clause. No assignment
  satisfies the empty clause, so none satisfies the clause list afterwards,
  and with an engine that decides this clause list the property \<open>solution\<close>
  raises \<open>UnsatisfiableConstraints\<close>.
\<close>

theorem empty_collection_appends_empty_clause:
  assumes "engine_decides eng (clauses p @ [[]])"
  shows "mutually_excludes p [] = append_clauses p [[]]
       \<and> includes_any p [] 1 = (None, append_clauses p [[]])
       \<and> clauses (append_clauses p [[]]) = clauses p @ [[]]
       \<and> \<not> clause_sat \<sigma> []
       \<and> \<not> cnf_sat \<sigma> (clauses (append_clauses p [[]]))
       \<and> solution eng (mutually_excludes p []) = Inl UnsatisfiableConstraints
       \<and> solution eng (snd (includes_any p [] 1)) = Inl UnsatisfiableConstraints"
proof -
  have cl: "clauses (append_clauses p [[]]) = clauses p @ [[]]"
    by (simp add: append_clauses_def)
  have un: "\<not> cnf_sat \<tau> (clauses p @ [[]])" for \<tau>
    by (simp add: cnf_sat_append cnf_sat_single empty_clause_unsat)
  have "solve eng (clauses p @ [[]]) = UNSAT"
    by (rule engine_decides_unsat[OF assms]) (simp add: un)
  then have sol: "solution eng (append_clauses p [[]]) = Inl UnsatisfiableConstraints"
    by (simp add: solution_def cl)
  show ?thesis
    using cl un[of \<sigma>] sol
    by (simp add: includes_any_empty mutually_excludes_empty empty_clause_unsat)
qed

theorem empty_collection_appends_empty_clause_witness:
  "engine_decides \<lparr>solve = (\<lambda>cs. UNSAT), itersolve = (\<lambda>cs. [])\<rparr>
     (clauses (init :: string AccessibleBSP) @ [[]])
   \<and> clauses (mutually_excludes (init :: string AccessibleBSP) []) = [[]]
   \<and> solution \<lparr>solve = (\<lambda>cs. UNSAT), itersolve = (\<lambda>cs. [])\<rparr>
        (mutually_excludes (init :: string AccessibleBSP) []) = Inl UnsatisfiableConstraints
   \<and> solution \<lparr>solve = (\<lambda>cs. UNSAT), itersolve = (\<lambda>cs. [])\<rparr>
        (snd (includes_any (init :: string AccessibleBSP) [] 1)) = Inl UnsatisfiableConstraints"
proof -
  define eng where "eng = \<lparr>solve = (\<lambda>cs. UNSAT), itersolve = (\<lambda>cs. [])\<rparr>"
  have d: "engine_decides eng (clauses (init :: string AccessibleBSP) @ [[]])"
    by (simp add: engine_decides_def eng_def init_def cnf_sat_def clause_sat_def)
  have c: "clauses (init :: string AccessibleBSP) = []" by (simp add: init_def)
  note t = empty_collection_appends_empty_clause[OF d, of "\<lambda>v. True"]
  from t have m: "mutually_excludes (init :: string AccessibleBSP) [] = append_clauses init [[]]"
    by blast
  from t have a: "clauses (append_clauses (init :: string AccessibleBSP) [[]]) = clauses (init :: string AccessibleBSP) @ [[]]"
    by blast
  have "clauses (mutually_excludes (init :: string AccessibleBSP) []) = [[]]"
    unfolding m a c by simp
  moreover from t have "solution eng (mutually_excludes (init :: string AccessibleBSP) []) = Inl UnsatisfiableConstraints"
    by blast
  moreover from t have "solution eng (snd (includes_any (init :: string AccessibleBSP) [] 1)) = Inl UnsatisfiableConstraints"
    by blast
  ultimately show ?thesis using d unfolding eng_def by blast
qed

section \<open>The queries \<open>solution\<close> and \<open>solutions\<close>\<close>

lemma remap_solution_not_module_error:
  "remap_solution p s \<noteq> Inl UnsatisfiableConstraints"
  "remap_solution p s \<noteq> Inl SolutionNotFound"
  by (simp_all add: remap_solution_def)

lemma remap_solution_registered:
  assumes "registry_ok p" "\<forall>i\<in>s. i \<le> variables p"
  shows "remap_solution p s = Inr {e. \<exists>i\<in>s. 0 < i \<and> id2e p i = Some e}"
proof -
  have d: "id2e p i \<noteq> None" if "i \<in> s" "0 < i" for i
  proof -
    have "i \<in> {1..variables p}" using that assms(2) by auto
    then have "i \<in> dom (id2e p)" using assms(1) by (simp add: registry_ok_def)
    then show ?thesis by (simp add: domIff)
  qed
  have "(\<lambda>i. the (id2e p i)) ` {i \<in> s. 0 < i} = {e. \<exists>i\<in>s. 0 < i \<and> id2e p i = Some e}"
  proof (intro set_eqI iffI)
    fix e assume "e \<in> (\<lambda>i. the (id2e p i)) ` {i \<in> s. 0 < i}"
    then obtain i where i: "i \<in> s" "0 < i" "e = the (id2e p i)" by auto
    then have "id2e p i = Some e" using d[of i] by auto
    then show "e \<in> {e. \<exists>i\<in>s. 0 < i \<and> id2e p i = Some e}" using i by blast
  next
    fix e assume "e \<in> {e. \<exists>i\<in>s. 0 < i \<and> id2e p i = Some e}"
    then obtain i where i: "i \<in> s" "0 < i" "id2e p i = Some e" by auto
    then have "e = the (id2e p i)" by simp
    then show "e \<in> (\<lambda>i. the (id2e p i)) ` {i \<in> s. 0 < i}" using i by blast
  qed
  moreover have "\<not> (\<exists>i\<in>s. 0 < i \<and> id2e p i = None)" using d by blast
  ultimately show ?thesis by (simp add: remap_solution_def)
qed

lemma remap_solution_list:
  "remap_solution p (set m) =
     (if list_ex (\<lambda>i. id2e p i = None) (filter (\<lambda>i. 0 < i) m) then Inl KeyError
      else Inr (set (map (\<lambda>i. the (id2e p i)) (filter (\<lambda>i. 0 < i) m))))"
proof -
  have "{i \<in> set m. 0 < i} = set (filter (\<lambda>i. 0 < i) m)" by auto
  then show ?thesis by (auto simp add: remap_solution_def list_ex_iff)
qed

text \<open>
  Claim C6. \<open>solution\<close> raises \<open>UnsatisfiableConstraints\<close> exactly when the
  engine answers \<open>UNSAT\<close> and \<open>SolutionNotFound\<close> exactly when it answers
  \<open>UNKNOWN\<close>. When the engine returns a model over the registered variables,
  \<open>solution\<close> returns the elements whose variables the model makes true. When
  the enumeration is empty, \<open>solutions\<close> yields nothing and ends with the
  exception of \<open>solution\<close>, which a consumer such as \<open>minimal_solution\<close>
  passes on.
\<close>

theorem solution_distinguishes_errors:
  "(solution eng p = Inl UnsatisfiableConstraints \<longleftrightarrow> solve eng (clauses p) = UNSAT)
   \<and> (solution eng p = Inl SolutionNotFound \<longleftrightarrow> solve eng (clauses p) = UNKNOWN)
   \<and> (registry_ok p \<and> solve eng (clauses p) = Model m \<and> (\<forall>i\<in>set m. i \<le> variables p) \<longrightarrow>
        solution eng p = Inr {e. \<exists>i\<in>set m. 0 < i \<and> id2e p i = Some e})
   \<and> (itersolve eng (clauses p) = [] \<longrightarrow>
        solutions eng p = (case solution eng p of Inl e \<Rightarrow> [Inl e] | Inr s \<Rightarrow> []))
   \<and> (itersolve eng (clauses p) = [] \<and> solve eng (clauses p) = UNSAT \<longrightarrow>
        solutions eng p = [Inl UnsatisfiableConstraints]
        \<and> minimal_solution eng p = Inl UnsatisfiableConstraints)
   \<and> (itersolve eng (clauses p) = [] \<and> solve eng (clauses p) = UNKNOWN \<longrightarrow>
        solutions eng p = [Inl SolutionNotFound]
        \<and> minimal_solution eng p = Inl SolutionNotFound)"
proof (intro conjI impI)
  show "solution eng p = Inl UnsatisfiableConstraints \<longleftrightarrow> solve eng (clauses p) = UNSAT"
    by (cases "solve eng (clauses p)")
       (simp_all add: solution_def remap_solution_not_module_error)
  show "solution eng p = Inl SolutionNotFound \<longleftrightarrow> solve eng (clauses p) = UNKNOWN"
    by (cases "solve eng (clauses p)")
       (simp_all add: solution_def remap_solution_not_module_error)
next
  assume a: "registry_ok p \<and> solve eng (clauses p) = Model m \<and> (\<forall>i\<in>set m. i \<le> variables p)"
  then have "remap_solution p (set m) = Inr {e. \<exists>i\<in>set m. 0 < i \<and> id2e p i = Some e}"
    by (intro remap_solution_registered) simp_all
  then show "solution eng p = Inr {e. \<exists>i\<in>set m. 0 < i \<and> id2e p i = Some e}"
    using a by (simp add: solution_def)
next
  assume "itersolve eng (clauses p) = []"
  then show "solutions eng p = (case solution eng p of Inl e \<Rightarrow> [Inl e] | Inr s \<Rightarrow> [])"
    by (simp add: solutions_def)
next
  assume a: "itersolve eng (clauses p) = [] \<and> solve eng (clauses p) = UNSAT"
  then show s: "solutions eng p = [Inl UnsatisfiableConstraints]"
    by (simp add: solutions_def solution_def)
  show "minimal_solution eng p = Inl UnsatisfiableConstraints"
    unfolding minimal_solution_def s by simp
next
  assume a: "itersolve eng (clauses p) = [] \<and> solve eng (clauses p) = UNKNOWN"
  then show s: "solutions eng p = [Inl SolutionNotFound]"
    by (simp add: solutions_def solution_def)
  show "minimal_solution eng p = Inl SolutionNotFound"
    unfolding minimal_solution_def s by simp
qed

theorem solution_distinguishes_errors_witness:
  "registry_ok (includes_elem (init :: string AccessibleBSP) ''x'')
   \<and> solve \<lparr>solve = (\<lambda>cs. Model [1]), itersolve = (\<lambda>cs. [])\<rparr>
        (clauses (includes_elem (init :: string AccessibleBSP) ''x'')) = Model [1]
   \<and> list_all (\<lambda>i. i \<le> variables (includes_elem (init :: string AccessibleBSP) ''x'')) [1]
   \<and> solution \<lparr>solve = (\<lambda>cs. Model [1]), itersolve = (\<lambda>cs. [])\<rparr>
        (includes_elem (init :: string AccessibleBSP) ''x'') = Inr {''x''}
   \<and> itersolve \<lparr>solve = (\<lambda>cs. UNSAT), itersolve = (\<lambda>cs. [])\<rparr>
        (clauses (init :: string AccessibleBSP)) = []
   \<and> solve \<lparr>solve = (\<lambda>cs. UNSAT), itersolve = (\<lambda>cs. [])\<rparr>
        (clauses (init :: string AccessibleBSP)) = UNSAT
   \<and> solutions \<lparr>solve = (\<lambda>cs. UNSAT), itersolve = (\<lambda>cs. [])\<rparr>
        (init :: string AccessibleBSP) = [Inl UnsatisfiableConstraints]
   \<and> solve \<lparr>solve = (\<lambda>cs. UNKNOWN), itersolve = (\<lambda>cs. [])\<rparr>
        (clauses (init :: string AccessibleBSP)) = UNKNOWN
   \<and> solutions \<lparr>solve = (\<lambda>cs. UNKNOWN), itersolve = (\<lambda>cs. [])\<rparr>
        (init :: string AccessibleBSP) = [Inl SolutionNotFound]"
proof -
  define q where "q = includes_elem (init :: string AccessibleBSP) ''x''"
  define e1 where "e1 = \<lparr>solve = (\<lambda>cs. Model [1]), itersolve = (\<lambda>cs. [])\<rparr>"
  define e2 where "e2 = \<lparr>solve = (\<lambda>cs. UNSAT), itersolve = (\<lambda>cs. [])\<rparr>"
  define e3 where "e3 = \<lparr>solve = (\<lambda>cs. UNKNOWN), itersolve = (\<lambda>cs. [])\<rparr>"
  define p0 where "p0 = (init :: string AccessibleBSP)"
  have ok: "registry_ok q"
    using registry_ok_to_id[OF registry_ok_init, of "''x''"]
    by (simp add: q_def includes_elem_def split_beta registry_ok_append_clauses)
  have m: "solve e1 (clauses q) = Model [1]" by (simp add: e1_def)
  have v: "\<forall>i\<in>set [1]. i \<le> variables q"
    by (simp add: q_def includes_elem_def append_clauses_def to_id_def init_def Let_def)
  have i: "id2e q 1 = Some ''x''"
    by (simp add: q_def includes_elem_def append_clauses_def to_id_def init_def Let_def)
  have "solution e1 q = Inr {e. \<exists>i\<in>set [1]. 0 < i \<and> id2e q i = Some e}"
    using solution_distinguishes_errors[of e1 q "[1]", THEN conjunct2, THEN conjunct2, THEN conjunct1]
      ok m v by blast
  moreover have "{e. \<exists>i\<in>set [1]. 0 < i \<and> id2e q i = Some e} = {''x''}"
    using i by auto
  ultimately have s1: "solution e1 q = Inr {''x''}" by simp
  have a2: "itersolve e2 (clauses p0) = []" "solve e2 (clauses p0) = UNSAT"
    by (simp_all add: e2_def)
  have s2: "solutions e2 p0 = [Inl UnsatisfiableConstraints]"
    using solution_distinguishes_errors[of e2 p0 "[]"] a2 by blast
  have a3: "itersolve e3 (clauses p0) = []" "solve e3 (clauses p0) = UNKNOWN"
    by (simp_all add: e3_def)
  have s3: "solutions e3 p0 = [Inl SolutionNotFound]"
    using solution_distinguishes_errors[of e3 p0 "[]"] a3 by blast
  have v': "list_all (\<lambda>i. i \<le> variables q) [1]" using v by simp
  show ?thesis
    using ok m v' s1 a2 s2 a3 s3 unfolding q_def e1_def e2_def e3_def p0_def by blast
qed

section \<open>\<open>minimal_solution\<close>\<close>

text \<open>
  Claim C2 says that \<open>minimal_solution\<close> returns a solution of least
  cardinality. The problem built by \<open>includes_any(["a", "b"])\<close> has the three
  models a, b and a with b; none is empty, so the loop reaches its second
  iteration and reads the unbound name \<open>lastlen\<close>. The method raises
  \<open>NameError\<close> and returns nothing.
\<close>

theorem minimal_solution_raises_NameError:
  "minimal_solution
     \<lparr>solve = (\<lambda>cs. Model [1, - 2]), itersolve = (\<lambda>cs. [[1, - 2], [- 1, 2], [1, 2]])\<rparr>
     (snd (includes_any (init :: string AccessibleBSP) [''a'', ''b''] 1))
   = Inl NameError"
proof -
  define q where "q = snd (includes_any (init :: string AccessibleBSP) [''a'', ''b''] 1)"
  have i: "id2e q 1 = Some ''a''" "id2e q 2 = Some ''b''"
    by (simp_all add: q_def includes_any_def append_clauses_def to_id_def init_def Let_def)
  have "solutions
     \<lparr>solve = (\<lambda>cs. Model [1, - 2]), itersolve = (\<lambda>cs. [[1, - 2], [- 1, 2], [1, 2]])\<rparr> q
     = [Inr {''a''}, Inr {''b''}, Inr {''a'', ''b''}]"
    by (simp add: solutions_def remap_solution_list i)
  then show ?thesis
    unfolding q_def[symmetric] minimal_solution_def by simp
qed

section \<open>\<open>includes_any\<close>\<close>

lemma includes_any_registry:
  "e2id (snd (includes_any p es n)) = e2id (snd (to_ids p es))"
  "id2e (snd (includes_any p es n)) = id2e (snd (to_ids p es))"
  "variables (snd (includes_any p es n)) = variables (snd (to_ids p es))"
  by (simp_all add: includes_any_def append_clauses_def split_beta Let_def)

lemma includes_any_clauses:
  assumes "n \<le> int (length es) + 1"
  shows "includes_any p es n =
     (None, append_clauses (snd (to_ids p es))
              (combinations (fst (to_ids p es)) (nat (int (length es) + 1 - n))))"
  using assms by (simp add: includes_any_def split_beta Let_def to_ids_length)

lemma to_ids_vars:
  assumes "registry_ok p" "e2id q = e2id (snd (to_ids p es))"
  shows "fst (to_ids p es) = map (\<lambda>e. the (e2id q e)) es"
    and "\<forall>k\<in>set (map (\<lambda>e. the (e2id q e)) es). 0 < k"
    and "inj_on (\<lambda>e. the (e2id q e)) (set es)"
proof -
  have ok: "registry_ok (snd (to_ids p es))" by (rule to_ids_registry_ok[OF assms(1)])
  have reg: "e2id (snd (to_ids p es)) e \<noteq> None" if "e \<in> set es" for e
    by (rule to_ids_registered[OF that])
  show "fst (to_ids p es) = map (\<lambda>e. the (e2id q e)) es"
    unfolding assms(2) by (rule to_ids_ids)
  show "\<forall>k\<in>set (map (\<lambda>e. the (e2id q e)) es). 0 < k"
    unfolding assms(2) using registry_ok_var_pos[OF ok reg] by simp
  show "inj_on (\<lambda>e. the (e2id q e)) (set es)"
    unfolding assms(2) using registry_ok_var_inj[OF ok reg reg] by (intro inj_onI) blast
qed

lemma card_true_vars:
  assumes "inj_on var (set es)"
  shows "card {k \<in> set (map var es). \<sigma> k} = card {e \<in> set es. \<sigma> (var e)}"
proof -
  have "{k \<in> set (map var es). \<sigma> k} = var ` {e \<in> set es. \<sigma> (var e)}" by auto
  moreover have "inj_on var {e \<in> set es. \<sigma> (var e)}"
    using assms by (rule inj_on_subset) auto
  ultimately show ?thesis by (simp add: card_image)
qed

text \<open>
  Claim C4. For \<open>m\<close> distinct elements and \<open>1 \<le> n \<le> m\<close>, \<open>includes_any\<close>
  raises nothing and appends the combinations of length \<open>m - n + 1\<close> of the
  elements' variables: clauses of positive literals, one for each subset of
  that size. An assignment satisfies the appended clauses if and only if at
  least \<open>n\<close> of the elements are true in it.
\<close>

theorem includes_any_at_least_n:
  assumes "registry_ok p" "distinct elements" "1 \<le> n" "n \<le> int (length elements)"
  shows "let q = snd (includes_any p elements n);
             ks = map (\<lambda>e. the (e2id q e)) elements;
             r = nat (int (length elements) - n + 1)
         in fst (includes_any p elements n) = None
          \<and> clauses q = clauses p @ combinations ks r
          \<and> (\<forall>c\<in>set (combinations ks r). \<forall>l\<in>set c. 0 < l)
          \<and> distinct (map set (combinations ks r))
          \<and> set (map set (combinations ks r)) = {S. S \<subseteq> set ks \<and> card S = r}
          \<and> (cnf_sat \<sigma> (combinations ks r) \<longleftrightarrow>
               nat n \<le> card {e \<in> set elements. \<sigma> (the (e2id q e))})
          \<and> (cnf_sat \<sigma> (clauses q) \<longleftrightarrow>
               cnf_sat \<sigma> (clauses p) \<and>
               nat n \<le> card {e \<in> set elements. \<sigma> (the (e2id q e))})"
proof -
  define q where "q = snd (includes_any p elements n)"
  define var where "var = (\<lambda>e. the (e2id q e))"
  define ks where "ks = map var elements"
  define r where "r = nat (int (length elements) - n + 1)"
  have eq: "e2id q = e2id (snd (to_ids p elements))"
    unfolding q_def by (rule includes_any_registry)
  note v = to_ids_vars[OF assms(1) eq, folded var_def, folded ks_def]
  have dks: "distinct ks" unfolding ks_def using v(3) assms(2) by (simp add: distinct_map)
  have len: "length ks = length elements" by (simp add: ks_def)
  have r: "r = length ks + 1 - nat n" using assms(3,4) by (simp add: r_def len)
  have r': "nat (int (length elements) + 1 - n) = r" by (simp add: r_def)
  have ia: "includes_any p elements n =
      (None, append_clauses (snd (to_ids p elements)) (combinations ks r))"
    using includes_any_clauses[of n elements p] assms(4) unfolding r' v(1) by simp
  have a: "fst (includes_any p elements n) = None" unfolding ia by simp
  have b: "clauses q = clauses p @ combinations ks r"
    unfolding q_def ia by (simp add: append_clauses_def to_ids_clauses)
  have c: "\<forall>c\<in>set (combinations ks r). \<forall>l\<in>set c. 0 < l"
    using combinations_member v(2) by blast
  have d: "distinct (map set (combinations ks r))"
    by (rule combinations_one_per_subset[OF dks])
  have e: "set (map set (combinations ks r)) = {S. S \<subseteq> set ks \<and> card S = r}"
    by (rule combinations_sets[OF dks])
  have "nat n \<le> length ks" using assms(4) by (simp add: len)
  from at_least_encoding[OF dks v(2) this, of \<sigma>]
  have "cnf_sat \<sigma> (combinations ks r) \<longleftrightarrow> nat n \<le> card {k \<in> set ks. \<sigma> k}"
    unfolding r .
  then have f: "cnf_sat \<sigma> (combinations ks r) \<longleftrightarrow> nat n \<le> card {e \<in> set elements. \<sigma> (var e)}"
    unfolding ks_def card_true_vars[OF v(3)] .
  have g: "cnf_sat \<sigma> (clauses q) \<longleftrightarrow>
      cnf_sat \<sigma> (clauses p) \<and> nat n \<le> card {e \<in> set elements. \<sigma> (var e)}"
    unfolding b cnf_sat_append f ..
  have "fst (includes_any p elements n) = None
          \<and> clauses q = clauses p @ combinations ks r
          \<and> (\<forall>c\<in>set (combinations ks r). \<forall>l\<in>set c. 0 < l)
          \<and> distinct (map set (combinations ks r))
          \<and> set (map set (combinations ks r)) = {S. S \<subseteq> set ks \<and> card S = r}
          \<and> (cnf_sat \<sigma> (combinations ks r) \<longleftrightarrow>
               nat n \<le> card {e \<in> set elements. \<sigma> (var e)})
          \<and> (cnf_sat \<sigma> (clauses q) \<longleftrightarrow>
               cnf_sat \<sigma> (clauses p) \<and>
               nat n \<le> card {e \<in> set elements. \<sigma> (var e)})"
    using a b c d e f g by blast
  then show ?thesis unfolding Let_def ks_def var_def r_def q_def .
qed


theorem includes_any_at_least_n_witness:
  "registry_ok (init :: string AccessibleBSP)
   \<and> distinct [''a'', ''b'', ''c'']
   \<and> (1 :: int) \<le> 2 \<and> (2 :: int) \<le> int (length [''a'', ''b'', ''c''])
   \<and> clauses (snd (includes_any (init :: string AccessibleBSP) [''a'', ''b'', ''c''] 2))
       = [[1, 2], [1, 3], [2, 3]]
   \<and> cnf_sat (\<lambda>v. v \<noteq> 3)
        (clauses (snd (includes_any (init :: string AccessibleBSP) [''a'', ''b'', ''c''] 2)))
   \<and> \<not> cnf_sat (\<lambda>v. v = 1)
        (clauses (snd (includes_any (init :: string AccessibleBSP) [''a'', ''b'', ''c''] 2)))"
proof -
  define q where "q = snd (includes_any (init :: string AccessibleBSP) [''a'', ''b'', ''c''] 2)"
  have ids: "e2id q ''a'' = Some 1" "e2id q ''b'' = Some 2" "e2id q ''c'' = Some 3"
    by (simp_all add: q_def includes_any_def append_clauses_def to_id_def init_def Let_def)
  have h: "distinct [''a'', ''b'', ''c'']" "(1 :: int) \<le> 2"
    "(2 :: int) \<le> int (length [''a'', ''b'', ''c''])"
    by simp_all
  have cl0: "clauses (init :: string AccessibleBSP) = []" by (simp add: init_def)
  have two: "combinations [1, 2, 3 :: int] 2 = [[1, 2], [1, 3], [2, 3]]"
    by (simp add: numeral_2_eq_2)
  note t = includes_any_at_least_n[OF registry_ok_init h, unfolded Let_def, folded q_def]
  have "clauses q = clauses (init :: string AccessibleBSP)
      @ combinations (map (\<lambda>e. the (e2id q e)) [''a'', ''b'', ''c''])
          (nat (int (length [''a'', ''b'', ''c'']) - 2 + 1))"
    using t[of "\<lambda>v. True"] by blast
  then have cl: "clauses q = [[1, 2], [1, 3], [2, 3]]"
    by (simp add: ids cl0 two)
  have s1: "cnf_sat (\<lambda>v. v \<noteq> 3) (clauses q)"
    unfolding cl by (simp add: cnf_sat_def clause_sat_def lit_true_def)
  have s2: "\<not> cnf_sat (\<lambda>v. v = 1) (clauses q)"
    unfolding cl by (simp add: cnf_sat_def clause_sat_def lit_true_def)
  show ?thesis using registry_ok_init h cl s1 s2 unfolding q_def by blast
qed

section \<open>\<open>has_dependencies\<close>\<close>

lemma has_dependencies_registry:
  "e2id (snd (has_dependencies p e on n)) = e2id (snd (to_ids (snd (to_id p e)) on))"
  by (simp add: has_dependencies_def append_clauses_def split_beta Let_def)

lemma prepend_singleton: "(@) [x] = (#) x"
  by (rule ext) simp

lemma has_dependencies_clauses:
  assumes "(case n of None \<Rightarrow> int (length on) | Some m \<Rightarrow> m) \<le> int (length on) + 1"
  shows "has_dependencies p e on n =
     (None, append_clauses (snd (to_ids (snd (to_id p e)) on))
        (map (\<lambda>c. - fst (to_id p e) # c)
           (combinations (fst (to_ids (snd (to_id p e)) on))
              (nat (int (length on) + 1 - (case n of None \<Rightarrow> int (length on) | Some m \<Rightarrow> m))))))"
  using assms
  by (simp add: has_dependencies_def split_beta Let_def to_ids_length prepend_singleton
        split: option.splits)

lemma clause_sat_guarded:
  assumes "0 < eid"
  shows "clause_sat \<sigma> (- eid # c) \<longleftrightarrow> (\<sigma> eid \<longrightarrow> clause_sat \<sigma> c)"
  using assms by (auto simp: clause_sat_def lit_true_def)

lemma cnf_sat_guarded:
  assumes "0 < eid"
  shows "cnf_sat \<sigma> (map (\<lambda>c. - eid # c) cs) \<longleftrightarrow> (\<sigma> eid \<longrightarrow> cnf_sat \<sigma> cs)"
  unfolding cnf_sat_def using clause_sat_guarded[OF assms] by auto

text \<open>
  Claim C5. For \<open>m\<close> distinct elements \<open>on\<close> and \<open>n\<close> between 1 and \<open>m\<close>
  (\<open>None\<close> standing for \<open>m\<close>), \<open>has_dependencies\<close> raises nothing and appends,
  for each subset of size \<open>m - n + 1\<close> of the variables of \<open>on\<close>, the clause
  made of the negated variable of the element followed by that subset. An
  assignment satisfies the appended clauses if and only if the element is
  false in it or at least \<open>n\<close> members of \<open>on\<close> are true in it.
\<close>

theorem has_dependencies_at_least_n:
  assumes "registry_ok p" "distinct on"
    and "case n of None \<Rightarrow> True | Some j \<Rightarrow> 1 \<le> j \<and> j \<le> int (length on)"
  shows "let q = snd (has_dependencies p element on n);
             eid = the (e2id q element);
             ks = map (\<lambda>e. the (e2id q e)) on;
             n' = (case n of None \<Rightarrow> length on | Some j \<Rightarrow> nat j);
             r = length on - n' + 1
         in fst (has_dependencies p element on n) = None
          \<and> clauses q = clauses p @ map (\<lambda>c. - eid # c) (combinations ks r)
          \<and> distinct (map set (combinations ks r))
          \<and> set (map set (combinations ks r)) = {S. S \<subseteq> set ks \<and> card S = r}
          \<and> (cnf_sat \<sigma> (map (\<lambda>c. - eid # c) (combinations ks r)) \<longleftrightarrow>
               (\<sigma> eid \<longrightarrow> n' \<le> card {e \<in> set on. \<sigma> (the (e2id q e))}))
          \<and> (cnf_sat \<sigma> (clauses q) \<longleftrightarrow>
               cnf_sat \<sigma> (clauses p) \<and>
               (\<sigma> eid \<longrightarrow> n' \<le> card {e \<in> set on. \<sigma> (the (e2id q e))}))"
proof -
  define q where "q = snd (has_dependencies p element on n)"
  define var where "var = (\<lambda>e. the (e2id q e))"
  define eid where "eid = var element"
  define ks where "ks = map var on"
  define n' where "n' = (case n of None \<Rightarrow> length on | Some j \<Rightarrow> nat j)"
  define r where "r = length on - n' + 1"
  define p1 where "p1 = snd (to_id p element)"
  have ok1: "registry_ok p1" unfolding p1_def by (rule registry_ok_to_id[OF assms(1)])
  have ok2: "registry_ok (snd (to_ids p1 on))" by (rule to_ids_registry_ok[OF ok1])
  have eq: "e2id q = e2id (snd (to_ids p1 on))"
    unfolding q_def p1_def by (rule has_dependencies_registry)
  have el: "e2id q element = Some (fst (to_id p element))"
    unfolding eq p1_def by (rule to_ids_keeps[OF to_id_result])
  then have eid: "fst (to_id p element) = eid" by (simp add: eid_def var_def)
  have epos: "0 < eid"
    using registry_ok_pos[OF ok2, of element eid] el unfolding eq eid by simp
  note v = to_ids_vars[OF ok1 eq, folded var_def, folded ks_def]
  have dks: "distinct ks" unfolding ks_def using v(3) assms(2) by (simp add: distinct_map)
  have len: "length ks = length on" by (simp add: ks_def)
  have nn: "(case n of None \<Rightarrow> int (length on) | Some m \<Rightarrow> m) = int n'" and nle: "n' \<le> length on"
    using assms(3) by (auto simp: n'_def split: option.splits)
  have r: "r = length ks + 1 - n'" using nle by (simp add: r_def len)
  have r': "nat (int (length on) + 1 - int n') = r" using nle by (simp add: r_def)
  have hd: "has_dependencies p element on n =
      (None, append_clauses (snd (to_ids p1 on)) (map (\<lambda>c. - eid # c) (combinations ks r)))"
    using has_dependencies_clauses[where n = n and on = on and p = p and e = element] nle
    unfolding nn r' p1_def[symmetric] v(1) eid by simp
  have a: "fst (has_dependencies p element on n) = None" unfolding hd by simp
  have b: "clauses q = clauses p @ map (\<lambda>c. - eid # c) (combinations ks r)"
    unfolding q_def hd by (simp add: append_clauses_def to_ids_clauses p1_def to_id_clauses)
  have d: "distinct (map set (combinations ks r))"
    by (rule combinations_one_per_subset[OF dks])
  have e: "set (map set (combinations ks r)) = {S. S \<subseteq> set ks \<and> card S = r}"
    by (rule combinations_sets[OF dks])
  have "n' \<le> length ks" using nle by (simp add: len)
  from at_least_encoding[OF dks v(2) this, of \<sigma>]
  have "cnf_sat \<sigma> (combinations ks r) \<longleftrightarrow> n' \<le> card {k \<in> set ks. \<sigma> k}"
    unfolding r .
  then have f0: "cnf_sat \<sigma> (combinations ks r) \<longleftrightarrow> n' \<le> card {e \<in> set on. \<sigma> (var e)}"
    unfolding ks_def card_true_vars[OF v(3)] .
  have f: "cnf_sat \<sigma> (map (\<lambda>c. - eid # c) (combinations ks r)) \<longleftrightarrow>
      (\<sigma> eid \<longrightarrow> n' \<le> card {e \<in> set on. \<sigma> (var e)})"
    unfolding cnf_sat_guarded[OF epos] f0 ..
  have g: "cnf_sat \<sigma> (clauses q) \<longleftrightarrow>
      cnf_sat \<sigma> (clauses p) \<and> (\<sigma> eid \<longrightarrow> n' \<le> card {e \<in> set on. \<sigma> (var e)})"
    unfolding b cnf_sat_append f ..
  have "fst (has_dependencies p element on n) = None
          \<and> clauses q = clauses p @ map (\<lambda>c. - eid # c) (combinations ks r)
          \<and> distinct (map set (combinations ks r))
          \<and> set (map set (combinations ks r)) = {S. S \<subseteq> set ks \<and> card S = r}
          \<and> (cnf_sat \<sigma> (map (\<lambda>c. - eid # c) (combinations ks r)) \<longleftrightarrow>
               (\<sigma> eid \<longrightarrow> n' \<le> card {e \<in> set on. \<sigma> (var e)}))
          \<and> (cnf_sat \<sigma> (clauses q) \<longleftrightarrow>
               cnf_sat \<sigma> (clauses p) \<and>
               (\<sigma> eid \<longrightarrow> n' \<le> card {e \<in> set on. \<sigma> (var e)}))"
    using a b d e f g by blast
  then show ?thesis unfolding Let_def r_def n'_def ks_def eid_def var_def q_def .
qed


theorem has_dependencies_at_least_n_witness:
  "registry_ok (init :: string AccessibleBSP)
   \<and> distinct [''b'', ''c'']
   \<and> (case Some (1 :: int) of None \<Rightarrow> True
       | Some j \<Rightarrow> 1 \<le> j \<and> j \<le> int (length [''b'', ''c'']))
   \<and> clauses (snd (has_dependencies (init :: string AccessibleBSP) ''a'' [''b'', ''c''] (Some 1)))
       = [[- 1, 2, 3]]
   \<and> cnf_sat (\<lambda>v. v = 1 \<or> v = 2)
        (clauses (snd (has_dependencies (init :: string AccessibleBSP) ''a'' [''b'', ''c''] (Some 1))))
   \<and> cnf_sat (\<lambda>v. False)
        (clauses (snd (has_dependencies (init :: string AccessibleBSP) ''a'' [''b'', ''c''] (Some 1))))
   \<and> \<not> cnf_sat (\<lambda>v. v = 1)
        (clauses (snd (has_dependencies (init :: string AccessibleBSP) ''a'' [''b'', ''c''] (Some 1))))"
proof -
  define q where
    "q = snd (has_dependencies (init :: string AccessibleBSP) ''a'' [''b'', ''c''] (Some 1))"
  have ids: "e2id q ''a'' = Some 1" "e2id q ''b'' = Some 2" "e2id q ''c'' = Some 3"
    by (simp_all add: q_def has_dependencies_def append_clauses_def to_id_def init_def Let_def)
  have h: "distinct [''b'', ''c'']"
    "case Some (1 :: int) of None \<Rightarrow> True
       | Some j \<Rightarrow> 1 \<le> j \<and> j \<le> int (length [''b'', ''c''])"
    by simp_all
  have cl0: "clauses (init :: string AccessibleBSP) = []" by (simp add: init_def)
  have two: "combinations [2, 3 :: int] 2 = [[2, 3]]"
    by (simp add: numeral_2_eq_2)
  note t = has_dependencies_at_least_n[OF registry_ok_init h, of "''a''" "\<lambda>v. True",
      unfolded Let_def, folded q_def]
  have cl: "clauses q = [[- 1, 2, 3]]"
    using t[THEN conjunct2, THEN conjunct1]
    by (simp add: ids cl0 two)
  have s1: "cnf_sat (\<lambda>v. v = 1 \<or> v = 2) (clauses q)"
    unfolding cl by (simp add: cnf_sat_def clause_sat_def lit_true_def)
  have s2: "cnf_sat (\<lambda>v. False) (clauses q)"
    unfolding cl by (simp add: cnf_sat_def clause_sat_def lit_true_def)
  have s3: "\<not> cnf_sat (\<lambda>v. v = 1) (clauses q)"
    unfolding cl by (simp add: cnf_sat_def clause_sat_def lit_true_def)
  have h2: "case Some (1 :: int) of None \<Rightarrow> True
       | Some j \<Rightarrow> 1 \<le> j \<and> j \<le> int (length [''b'', ''c''])"
    by (rule h(2))
  show ?thesis
    unfolding q_def[symmetric]
    by (intro conjI registry_ok_init h(1) h2 cl s1 s2 s3)
qed

section \<open>The DIMACS export\<close>

lemma text_lines_line:
  "CHR 0x0A \<notin> set l \<Longrightarrow> text_lines (l @ CHR 0x0A # rest) = l # text_lines rest"
  by (induction l) auto

lemma text_lines_concat:
  "\<forall>l\<in>set ls. CHR 0x0A \<notin> set l \<Longrightarrow>
     text_lines (concat (map (\<lambda>l. l @ [CHR 0x0A]) ls)) = ls"
  by (induction ls) (simp_all add: text_lines_line)

lemma join_terminated:
  "ls \<noteq> [] \<Longrightarrow> join sep ls @ sep = concat (map (\<lambda>l. l @ sep) ls)"
  by (induction sep ls rule: join.induct) simp_all

lemma join_spaced:
  "join sep (map f xs) @ sep = concat (map (\<lambda>x. f x @ sep) xs) \<or> xs = []"
proof (cases xs)
  case Nil
  then show ?thesis by simp
next
  case (Cons a as)
  then have "map f xs \<noteq> []" by simp
  from join_terminated[OF this, of sep] show ?thesis by (simp add: comp_def)
qed

lemma digit_char_cases:
  assumes "d < 10"
  shows "digit_char d \<in> set ''0123456789'' \<and> digit_value (digit_char d) = d"
proof -
  from assms have "d = 0 \<or> d = 1 \<or> d = 2 \<or> d = 3 \<or> d = 4 \<or> d = 5 \<or> d = 6 \<or> d = 7
      \<or> d = 8 \<or> d = 9" by arith
  then show ?thesis
    by (elim disjE) (simp_all add: digit_char_def digit_value_def)
qed

lemma str_nat_digits: "set (str_nat n) \<subseteq> set ''0123456789''"
proof (induction n rule: str_nat.induct)
  case (1 n)
  show ?case
  proof (cases "n < 10")
    case True
    then show ?thesis using digit_char_cases[of n] by (subst str_nat.simps) simp
  next
    case False
    have "n mod 10 < 10" by simp
    then have "digit_char (n mod 10) \<in> set ''0123456789''"
      using digit_char_cases by blast
    then show ?thesis using False "1.IH" by (subst str_nat.simps) simp
  qed
qed

lemma decimal_value_snoc:
  "decimal_value (cs @ [c]) = 10 * decimal_value cs + digit_value c"
  by (simp add: decimal_value_def)

lemma decimal_value_str_nat: "decimal_value (str_nat n) = n"
proof (induction n rule: str_nat.induct)
  case (1 n)
  show ?case
  proof (cases "n < 10")
    case True
    then show ?thesis
      using digit_char_cases[of n] by (subst str_nat.simps) (simp add: decimal_value_def)
  next
    case False
    have "digit_value (digit_char (n mod 10)) = n mod 10"
      using digit_char_cases[of "n mod 10"] by simp
    then show ?thesis
      using False "1.IH" by (subst str_nat.simps) (simp add: decimal_value_snoc)
  qed
qed

lemma str_int_no_newline: "CHR 0x0A \<notin> set (str_int i)"
  using str_nat_digits[of "nat i"] str_nat_digits[of "nat (- i)"]
  by (auto simp: str_int_def)

lemma str_int_nonneg: "0 \<le> i \<Longrightarrow> decimal_value (str_int i) = nat i"
  by (simp add: str_int_def decimal_value_str_nat)

lemma join_no_newline:
  "\<forall>x\<in>set xs. CHR 0x0A \<notin> set x \<Longrightarrow> CHR 0x0A \<notin> set (join '' '' xs)"
  by (induction "'' ''" xs rule: join.induct) simp_all

text \<open>
  Claim C9. When \<open>items\<close> lists the entries of \<open>id2e\<close> once each and no
  \<open>repr\<close> of a registered element holds a newline, the lines of the export
  are: one comment line \<open>c <id> = <repr> <<hash>>\<close> for each registered
  element, then the line \<open>p cnf A B\<close> where \<open>A\<close> is the number of clauses and
  \<open>B\<close> the number of variables, in decimal, then one line for each clause, its
  literals separated by spaces and followed by \<open>0\<close>.
\<close>

theorem dimacs_cnf_layout:
  assumes "distinct (map fst items)" and "map_of items = id2e p"
    and "\<forall>e\<in>ran (id2e p). CHR 0x0A \<notin> set (repr e)"
  shows "text_lines (dimacs_cnf repr hash items p) =
           map (\<lambda>(k, e). ''c '' @ str_int k @ '' = '' @ repr e
                  @ '' <'' @ str_int (hash e) @ ''>'') items
           @ [''p cnf '' @ str_int (int (length (clauses p))) @ '' '' @ str_int (variables p)]
           @ map (\<lambda>c. join '' '' (map str_int c) @ '' 0'') (clauses p)
       \<and> length items = card (dom (id2e p))
       \<and> set items = {(k, e). id2e p k = Some e}
       \<and> decimal_value (str_int (int (length (clauses p)))) = length (clauses p)
       \<and> (0 \<le> variables p \<longrightarrow> decimal_value (str_int (variables p)) = nat (variables p))
       \<and> (\<forall>c\<in>set (clauses p). c \<noteq> [] \<longrightarrow>
            join '' '' (map str_int c) @ '' 0'' = concat (map (\<lambda>l. str_int l @ '' '') c) @ ''0'')"
proof -
  define comment where "comment = (\<lambda>(k :: int, e). ''c '' @ str_int k @ '' = '' @ repr e
                  @ '' <'' @ str_int (hash e) @ ''>'')"
  define header where
    "header = ''p cnf '' @ str_int (int (length (clauses p))) @ '' '' @ str_int (variables p)"
  define clause_line where "clause_line = (\<lambda>c. join '' '' (map str_int c) @ '' 0'')"
  define ls where "ls = map comment items @ [header] @ map clause_line (clauses p)"
  have d: "dimacs_cnf repr hash items p = join [CHR 0x0A] ls @ [CHR 0x0A]"
    by (simp add: dimacs_cnf_def Let_def ls_def comment_def header_def clause_line_def)
  have "ls \<noteq> []" by (simp add: ls_def)
  then have t: "join [CHR 0x0A] ls @ [CHR 0x0A] = concat (map (\<lambda>l. l @ [CHR 0x0A]) ls)"
    by (rule join_terminated)
  have items: "id2e p k = Some e" if "(k, e) \<in> set items" for k e
    using that assms(1,2) by (metis map_of_is_SomeI)
  have nc: "CHR 0x0A \<notin> set (comment x)" if "x \<in> set items" for x
  proof -
    obtain k e where x: "x = (k, e)" by (cases x)
    then have "e \<in> ran (id2e p)" using items[of k e] that by (auto simp: ran_def)
    then have "CHR 0x0A \<notin> set (repr e)" using assms(3) by blast
    then show ?thesis using str_int_no_newline by (simp add: comment_def x)
  qed
  have nh: "CHR 0x0A \<notin> set header" using str_int_no_newline by (simp add: header_def)
  have nl: "CHR 0x0A \<notin> set (clause_line c)" for c
  proof -
    have "CHR 0x0A \<notin> set (join '' '' (map str_int c))"
      by (rule join_no_newline) (simp add: str_int_no_newline)
    then show ?thesis by (simp add: clause_line_def)
  qed
  have "\<forall>l\<in>set ls. CHR 0x0A \<notin> set l" using nc nh nl by (auto simp: ls_def)
  then have a: "text_lines (dimacs_cnf repr hash items p) = ls"
    unfolding d t by (rule text_lines_concat)
  have "dom (id2e p) = set (map fst items)"
    unfolding assms(2)[symmetric] by (simp add: dom_map_of_conv_image_fst)
  then have b: "length items = card (dom (id2e p))"
    using assms(1) distinct_card[of "map fst items"] by simp
  have c: "set items = {(k, e). id2e p k = Some e}"
    unfolding assms(2)[symmetric] using assms(1) by auto
  have e: "decimal_value (str_int (int (length (clauses p)))) = length (clauses p)"
    using str_int_nonneg[of "int (length (clauses p))"] by simp
  have f: "0 \<le> variables p \<longrightarrow> decimal_value (str_int (variables p)) = nat (variables p)"
    using str_int_nonneg by blast
  have g: "join '' '' (map str_int c) @ '' 0'' = concat (map (\<lambda>l. str_int l @ '' '') c) @ ''0''"
    if "c \<noteq> []" for c
    using join_spaced[of "'' ''" str_int c] that by simp
  have "text_lines (dimacs_cnf repr hash items p) =
           map comment items @ [header] @ map clause_line (clauses p)
       \<and> length items = card (dom (id2e p))
       \<and> set items = {(k, e). id2e p k = Some e}
       \<and> decimal_value (str_int (int (length (clauses p)))) = length (clauses p)
       \<and> (0 \<le> variables p \<longrightarrow> decimal_value (str_int (variables p)) = nat (variables p))
       \<and> (\<forall>c\<in>set (clauses p). c \<noteq> [] \<longrightarrow>
            join '' '' (map str_int c) @ '' 0'' = concat (map (\<lambda>l. str_int l @ '' '') c) @ ''0'')"
    using a[unfolded ls_def] b c e f g by blast
  then show ?thesis unfolding comment_def header_def clause_line_def .
qed

theorem dimacs_cnf_layout_witness:
  "distinct (map fst [(1 :: int, ''a''), (2, ''b'')])
   \<and> map_of [(1 :: int, ''a''), (2, ''b'')]
       = id2e (snd (includes_any (init :: string AccessibleBSP) [''a'', ''b''] 1))
   \<and> CHR 0x0A \<notin> set ''a'' \<and> CHR 0x0A \<notin> set ''b''
   \<and> text_lines (dimacs_cnf (\<lambda>e. e) (\<lambda>e. 5) [(1, ''a''), (2, ''b'')]
         (snd (includes_any (init :: string AccessibleBSP) [''a'', ''b''] 1)))
       = [''c 1 = a <5>'', ''c 2 = b <5>'', ''p cnf 1 2'', ''1 2 0'']"
proof -
  define q where "q = snd (includes_any (init :: string AccessibleBSP) [''a'', ''b''] 1)"
  have i: "id2e q = [1 \<mapsto> ''a'', 2 \<mapsto> ''b'']"
    by (simp add: q_def includes_any_def append_clauses_def to_id_def init_def Let_def)
  have cl: "clauses q = [[1, 2]]" "variables q = 2"
    by (simp_all add: q_def includes_any_def append_clauses_def to_id_def init_def Let_def)
  have h1: "distinct (map fst [(1 :: int, ''a''), (2, ''b'')])" by simp
  have h2: "map_of [(1 :: int, ''a''), (2, ''b'')] = id2e q"
    unfolding i by (rule ext) simp
  have h3: "\<forall>e\<in>ran (id2e q). CHR 0x0A \<notin> set e"
    unfolding i by (auto simp: ran_def split: if_splits)
  have s: "str_int 1 = ''1''" "str_int 2 = ''2''" "str_int 5 = ''5''"
    by (simp_all add: str_int_def str_nat.simps digit_char_def)
  have "text_lines (dimacs_cnf (\<lambda>e. e) (\<lambda>e. 5) [(1, ''a''), (2, ''b'')] q)
       = [''c 1 = a <5>'', ''c 2 = b <5>'', ''p cnf 1 2'', ''1 2 0'']"
    using dimacs_cnf_layout[OF h1 h2, of "\<lambda>e. e" "\<lambda>e. 5", THEN conjunct1] h3
    by (simp add: cl s)
  moreover have "CHR 0x0A \<notin> set ''a''" "CHR 0x0A \<notin> set ''b''" by simp_all
  ultimately show ?thesis using h1 h2 unfolding q_def by blast
qed

section \<open>The search of \<open>partition_solutions\<close>\<close>

text \<open>
  What holds of every state of the search: the vertices on the stack and in
  the edge lists are non-empty tuples of pairwise disjoint candidates, the
  parent of each has its entry in \<open>graph\<close>, and the pool of an entry is the
  union of its vertex. So neither \<open>graph[vertex[:-1]]\<close> nor \<open>e[-1]\<close> raises,
  and a returned path is a tuple of pairwise disjoint candidates whose union
  has \<open>target_pool_size\<close> members.
\<close>

definition good :: "int set list \<Rightarrow> vertex \<Rightarrow> bool" where
  "good sols v \<longleftrightarrow> v \<noteq> [] \<and> set v \<subseteq> set sols \<and> sorted_wrt (\<lambda>a b. a \<inter> b = {}) v"

definition dfs_inv :: "int set list \<Rightarrow> dfs_state \<Rightarrow> bool" where
  "dfs_inv sols st \<longleftrightarrow>
     (\<forall>v\<in>set (stack st). good sols v \<and> (length v \<noteq> 1 \<longrightarrow> graph st (butlast v) \<noteq> None)) \<and>
     (\<forall>es\<in>set (heap st). \<forall>v\<in>set es. good sols v \<and> graph st (butlast v) \<noteq> None) \<and>
     (\<forall>v a pool. graph st v = Some (a, pool) \<longrightarrow> pool = \<Union> (set v) \<and> a < length (heap st))"

lemma dfs_inv_stack:
  "dfs_inv sols st \<Longrightarrow> v \<in> set (stack st) \<Longrightarrow>
     good sols v \<and> (length v \<noteq> 1 \<longrightarrow> graph st (butlast v) \<noteq> None)"
  unfolding dfs_inv_def by blast

lemma dfs_inv_heap:
  "dfs_inv sols st \<Longrightarrow> es \<in> set (heap st) \<Longrightarrow> v \<in> set es \<Longrightarrow>
     good sols v \<and> graph st (butlast v) \<noteq> None"
  unfolding dfs_inv_def by blast

lemma dfs_inv_graph:
  "dfs_inv sols st \<Longrightarrow> graph st v = Some (a, pool) \<Longrightarrow>
     pool = \<Union> (set v) \<and> a < length (heap st)"
  unfolding dfs_inv_def by blast

lemma scan_candidates_Inr:
  "scan_candidates t v pool cs edges = Inr edges' \<Longrightarrow>
     \<exists>news. edges' = edges @ news \<and>
       (\<forall>w\<in>set news. \<exists>c\<in>set cs. w = v @ [c] \<and> c \<notin> set v \<and> c \<inter> pool = {})"
proof (induction cs arbitrary: edges)
  case Nil
  then show ?case by simp
next
  case (Cons a cs)
  show ?case
  proof (cases "int t - int (card pool) < int (card a) \<or> a \<in> set v \<or> a \<inter> pool \<noteq> {}")
    case True
    then have "scan_candidates t v pool cs edges = Inr edges'"
      using Cons.prems by simp
    from Cons.IH[OF this] show ?thesis by auto
  next
    case False
    then have "scan_candidates t v pool cs (edges @ [v @ [a]]) = Inr edges'"
      using Cons.prems by (simp split: if_splits)
    from Cons.IH[OF this] obtain news where n: "edges' = (edges @ [v @ [a]]) @ news"
      "\<forall>w\<in>set news. \<exists>c\<in>set cs. w = v @ [c] \<and> c \<notin> set v \<and> c \<inter> pool = {}"
      by blast
    have "edges' = edges @ ((v @ [a]) # news)" using n(1) by simp
    moreover have "\<forall>w\<in>set ((v @ [a]) # news).
        \<exists>c\<in>set (a # cs). w = v @ [c] \<and> c \<notin> set v \<and> c \<inter> pool = {}"
      using n(2) False by auto
    ultimately show ?thesis by blast
  qed
qed

lemma scan_candidates_Inl:
  "scan_candidates t v pool cs edges = Inl w \<Longrightarrow>
     \<exists>c\<in>set cs. w = v @ [c] \<and> c \<notin> set v \<and> c \<inter> pool = {} \<and> card pool + card c = t"
proof (induction cs arbitrary: edges)
  case Nil
  then show ?case by simp
next
  case (Cons a cs)
  show ?case
  proof (cases "int t - int (card pool) < int (card a) \<or> a \<in> set v \<or> a \<inter> pool \<noteq> {}")
    case True
    then have "scan_candidates t v pool cs edges = Inl w"
      using Cons.prems by simp
    from Cons.IH[OF this] show ?thesis by auto
  next
    case False
    show ?thesis
    proof (cases "card pool + card a = t")
      case True
      then have "w = v @ [a]" using Cons.prems False by simp
      then show ?thesis using True False by auto
    next
      case no: False
      then have "scan_candidates t v pool cs (edges @ [v @ [a]]) = Inl w"
        using Cons.prems False by simp
      from Cons.IH[OF this] show ?thesis by auto
    qed
  qed
qed

lemma good_extend:
  assumes "good sols v" "c \<in> set sols" "c \<inter> \<Union> (set v) = {}"
  shows "good sols (v @ [c])"
proof -
  have "\<forall>x\<in>set v. x \<inter> c = {}" using assms(3) by auto
  then show ?thesis using assms(1,2) by (simp add: good_def sorted_wrt_append)
qed

lemma deref_in_heap: "a < length h \<Longrightarrow> deref h a \<in> set h"
  by (simp add: deref_def)

lemma visit_Inr_fields:
  assumes "visit t vertex rest g a h candidates pool = Inr st'"
  shows "\<exists>edges. scan_candidates t vertex pool candidates (deref h a) = Inr edges
           \<and> stack st' = rev edges @ rest
           \<and> graph st' = g(vertex \<mapsto> (a, pool))
           \<and> heap st' = h[a := edges]"
proof (cases "scan_candidates t vertex pool candidates (deref h a)")
  case (Inl w)
  then show ?thesis using assms by (simp add: visit_def)
next
  case (Inr edges)
  then have "\<lparr>stack = rev edges @ rest, graph = g(vertex \<mapsto> (a, pool)),
              heap = h[a := edges]\<rparr> = st'"
    using assms by (simp add: visit_def)
  then have "stack st' = rev edges @ rest" "graph st' = g(vertex \<mapsto> (a, pool))"
    "heap st' = h[a := edges]"
    by auto
  then show ?thesis using Inr by blast
qed

lemma visit_Inr_inv:
  assumes inv: "dfs_inv sols st"
    and st: "stack st = vertex # rest" "graph st vertex = None"
    and h: "\<forall>es\<in>set h. es = [] \<or> es \<in> set (heap st)" "a < length h"
      "length (heap st) \<le> length h"
    and ca: "set candidates \<subseteq> set sols"
    and po: "pool = \<Union> (set vertex)"
    and vis: "visit t vertex rest (graph st) a h candidates pool = Inr st'"
  shows "dfs_inv sols st'"
proof -
  from visit_Inr_fields[OF vis] obtain edges
    where sc: "scan_candidates t vertex pool candidates (deref h a) = Inr edges"
      and st': "stack st' = rev edges @ rest" "graph st' = (graph st)(vertex \<mapsto> (a, pool))"
        "heap st' = h[a := edges]"
    by blast
  from scan_candidates_Inr[OF sc] obtain news where news: "edges = deref h a @ news"
    "\<forall>w\<in>set news. \<exists>c\<in>set candidates. w = vertex @ [c] \<and> c \<notin> set vertex \<and> c \<inter> pool = {}"
    by blast
  have gv: "good sols vertex"
    using dfs_inv_stack[OF inv, of vertex] st(1) by simp
  have keep: "graph st' w \<noteq> None" if "graph st w \<noteq> None" for w
    using that by (simp add: st')
  have old: "good sols w \<and> graph st (butlast w) \<noteq> None" if "w \<in> set (deref h a)" for w
  proof -
    have "deref h a = [] \<or> deref h a \<in> set (heap st)"
      using h(1) deref_in_heap[OF h(2)] by blast
    then show ?thesis
    proof
      assume "deref h a = []"
      then show ?thesis using that by simp
    next
      assume "deref h a \<in> set (heap st)"
      from dfs_inv_heap[OF inv this that] show ?thesis .
    qed
  qed
  have new: "good sols w \<and> graph st' (butlast w) \<noteq> None" if "w \<in> set news" for w
  proof -
    from news(2) that
    have "\<exists>c\<in>set candidates. w = vertex @ [c] \<and> c \<notin> set vertex \<and> c \<inter> pool = {}"
      by (rule bspec)
    then obtain c where c: "c \<in> set candidates" "w = vertex @ [c]" "c \<inter> pool = {}"
      by (elim bexE conjE)
    have c1: "c \<in> set sols" using c(1) ca by blast
    have c2: "c \<inter> \<Union> (set vertex) = {}" using c(3) unfolding po .
    have g1: "good sols (vertex @ [c])" by (rule good_extend[OF gv c1 c2])
    have "butlast (vertex @ [c]) = vertex" by simp
    then have g2: "graph st' (butlast (vertex @ [c])) \<noteq> None" by (simp add: st'(2))
    show ?thesis unfolding c(2) using g1 g2 by blast
  qed
  have ed: "good sols w \<and> graph st' (butlast w) \<noteq> None" if "w \<in> set edges" for w
  proof -
    have "w \<in> set (deref h a) \<or> w \<in> set news" using that by (simp add: news(1))
    then show ?thesis using old[of w] new[of w] keep[of "butlast w"] by blast
  qed
  have s: "\<forall>v\<in>set (stack st'). good sols v \<and> (length v \<noteq> 1 \<longrightarrow> graph st' (butlast v) \<noteq> None)"
  proof
    fix v assume "v \<in> set (stack st')"
    then have "v \<in> set edges \<or> v \<in> set rest" by (simp add: st')
    then show "good sols v \<and> (length v \<noteq> 1 \<longrightarrow> graph st' (butlast v) \<noteq> None)"
    proof
      assume "v \<in> set edges"
      then show ?thesis using ed by blast
    next
      assume "v \<in> set rest"
      then have "v \<in> set (stack st)" using st(1) by simp
      from dfs_inv_stack[OF inv this] show ?thesis using keep by blast
    qed
  qed
  have hp: "\<forall>es\<in>set (heap st'). \<forall>v\<in>set es. good sols v \<and> graph st' (butlast v) \<noteq> None"
  proof (intro ballI)
    fix es v assume es: "es \<in> set (heap st')" and v: "v \<in> set es"
    have "es \<in> set (h[a := edges])" using es by (simp add: st')
    then have "es = edges \<or> es \<in> set h"
      using set_update_subset_insert[of h a edges] by blast
    then show "good sols v \<and> graph st' (butlast v) \<noteq> None"
    proof
      assume "es = edges"
      then show ?thesis using ed v by blast
    next
      assume "es \<in> set h"
      moreover have "es \<noteq> []" using v by auto
      ultimately have "es \<in> set (heap st)" using h(1) by blast
      from dfs_inv_heap[OF inv this v] show ?thesis using keep by blast
    qed
  qed
  have g: "\<forall>v b q. graph st' v = Some (b, q) \<longrightarrow> q = \<Union> (set v) \<and> b < length (heap st')"
  proof (intro allI impI)
    fix v b q assume e: "graph st' v = Some (b, q)"
    show "q = \<Union> (set v) \<and> b < length (heap st')"
    proof (cases "v = vertex")
      case True
      then show ?thesis using e po h(2) by (simp add: st')
    next
      case False
      then have "graph st v = Some (b, q)" using e by (simp add: st')
      from dfs_inv_graph[OF inv this] show ?thesis using h(3) by (simp add: st')
    qed
  qed
  show ?thesis unfolding dfs_inv_def by (intro conjI s hp g)
qed

lemma visit_Inl_found:
  assumes inv: "dfs_inv sols st"
    and fin: "\<forall>s\<in>set sols. finite s"
    and st: "stack st = vertex # rest"
    and ca: "set candidates \<subseteq> set sols"
    and po: "pool = \<Union> (set vertex)"
    and vis: "visit t vertex rest g a h candidates pool = Inl r"
  shows "\<exists>w. r = Found w \<and> good sols w \<and> card (\<Union> (set w)) = t"
proof -
  obtain w where sc: "scan_candidates t vertex pool candidates (deref h a) = Inl w"
    and r: "r = Found w"
    using vis unfolding visit_def
    by (cases "scan_candidates t vertex pool candidates (deref h a)") auto
  from scan_candidates_Inl[OF sc] obtain c where c: "c \<in> set candidates" "w = vertex @ [c]"
    "c \<inter> pool = {}" "card pool + card c = t"
    by (elim bexE conjE)
  have gv: "good sols vertex"
    using dfs_inv_stack[OF inv, of vertex] st by simp
  have cs: "c \<in> set sols" using c(1) ca by blast
  have c2: "c \<inter> \<Union> (set vertex) = {}" using c(3) unfolding po .
  have gw: "good sols w"
    unfolding c(2) by (rule good_extend[OF gv cs c2])
  have "set vertex \<subseteq> set sols" using gv by (simp add: good_def)
  then have "\<forall>x\<in>set vertex. finite x" using fin by blast
  then have "finite pool" unfolding po by blast
  moreover have "finite c" using cs fin by blast
  ultimately have "card (pool \<union> c) = card pool + card c"
    using c(3) by (simp add: card_Un_disjoint Int_commute)
  moreover have "\<Union> (set (vertex @ [c])) = \<Union> (set vertex) \<union> c" by auto
  ultimately have "card (\<Union> (set w)) = t" unfolding c(2) using c(4) po by simp
  then show ?thesis using r gw by blast
qed

lemma dfs_step_inv:
  assumes inv: "dfs_inv sols st" and fin: "\<forall>s\<in>set sols. finite s"
  shows "case dfs_step t sols st of
           Inl r \<Rightarrow> r = Exhausted \<or> (\<exists>w. r = Found w \<and> good sols w \<and> card (\<Union> (set w)) = t)
         | Inr st' \<Rightarrow> dfs_inv sols st'"
proof (cases "stack st")
  case Nil
  then show ?thesis by (simp add: dfs_step_def)
next
  case (Cons vertex rest)
  have vs: "vertex \<in> set (stack st)" using Cons by simp
  have gv: "good sols vertex" using dfs_inv_stack[OF inv vs] by simp
  show ?thesis
  proof (cases "graph st vertex")
    case (Some entry)
    have "dfs_inv sols (st\<lparr>stack := rest\<rparr>)"
      unfolding dfs_inv_def
    proof (intro conjI ballI allI impI)
      fix v assume "v \<in> set (stack (st\<lparr>stack := rest\<rparr>))"
      then have v: "v \<in> set (stack st)" using Cons by simp
      from dfs_inv_stack[OF inv v] show "good sols v" by simp
      assume "length v \<noteq> 1"
      with dfs_inv_stack[OF inv v]
      show "graph (st\<lparr>stack := rest\<rparr>) (butlast v) \<noteq> None" by simp
    next
      fix es v assume "es \<in> set (heap (st\<lparr>stack := rest\<rparr>))" "v \<in> set es"
      then have "es \<in> set (heap st)" "v \<in> set es" by simp_all
      from dfs_inv_heap[OF inv this] show "good sols v"
        and "graph (st\<lparr>stack := rest\<rparr>) (butlast v) \<noteq> None" by simp_all
    next
      fix v a pool assume "graph (st\<lparr>stack := rest\<rparr>) v = Some (a, pool)"
      then have "graph st v = Some (a, pool)" by simp
      from dfs_inv_graph[OF inv this] show "pool = \<Union> (set v)"
        and "a < length (heap (st\<lparr>stack := rest\<rparr>))" by simp_all
    qed
    then show ?thesis using Cons Some by (simp add: dfs_step_def)
  next
    case None
    show ?thesis
    proof (cases "length vertex = 1")
      case True
      then obtain x where x: "vertex = [x]" by (cases vertex) auto
      let ?res = "visit t vertex rest (graph st) (length (heap st)) (heap st @ [[]]) sols
                    (hd vertex)"
      have step: "dfs_step t sols st = ?res"
        using Cons None True by (simp add: dfs_step_def)
      have po: "hd vertex = \<Union> (set vertex)" by (simp add: x)
      show ?thesis
      proof (cases ?res)
        case (Inl r)
        from visit_Inl_found[OF inv fin Cons subset_refl po Inl]
        show ?thesis unfolding step Inl by auto
      next
        case (Inr st')
        have "dfs_inv sols st'"
          by (rule visit_Inr_inv[OF inv Cons None _ _ _ subset_refl po Inr]) auto
        then show ?thesis unfolding step Inr by simp
      qed
    next
      case False
      then have "graph st (butlast vertex) \<noteq> None"
        using dfs_inv_stack[OF inv vs] by simp
      then obtain a pool0 where par: "graph st (butlast vertex) = Some (a, pool0)" by auto
      from dfs_inv_graph[OF inv par]
      have p0: "pool0 = \<Union> (set (butlast vertex))" and a: "a < length (heap st)"
        by simp_all
      have ne: "vertex \<noteq> []" using gv by (simp add: good_def)
      have dh: "deref (heap st) a \<in> set (heap st)" by (rule deref_in_heap[OF a])
      have gd: "good sols e" if "e \<in> set (deref (heap st) a)" for e
        using dfs_inv_heap[OF inv dh that] by simp
      have nn: "[] \<notin> set (deref (heap st) a)" using gd by (auto simp: good_def)
      let ?res = "visit t vertex rest (graph st) a (heap st)
                    (map last (deref (heap st) a)) (pool0 \<union> last vertex)"
      have step: "dfs_step t sols st = ?res"
        using Cons None False par ne nn by (simp add: dfs_step_def)
      have ca: "set (map last (deref (heap st) a)) \<subseteq> set sols"
      proof
        fix y assume "y \<in> set (map last (deref (heap st) a))"
        then obtain e where e: "e \<in> set (deref (heap st) a)" "y = last e" by auto
        then have "e \<noteq> []" "set e \<subseteq> set sols" using gd[of e] by (simp_all add: good_def)
        then show "y \<in> set sols" using e(2) last_in_set[of e] by blast
      qed
      have "set (butlast vertex @ [last vertex]) = set (butlast vertex) \<union> {last vertex}"
        by simp
      then have "set vertex = set (butlast vertex) \<union> {last vertex}"
        using ne by simp
      then have po: "pool0 \<union> last vertex = \<Union> (set vertex)"
        unfolding p0 by blast
      show ?thesis
      proof (cases ?res)
        case (Inl r)
        from visit_Inl_found[OF inv fin Cons ca po Inl]
        show ?thesis unfolding step Inl by auto
      next
        case (Inr st')
        have "dfs_inv sols st'"
          by (rule visit_Inr_inv[OF inv Cons None _ a _ ca po Inr]) auto
        then show ?thesis unfolding step Inr by simp
      qed
    qed
  qed
qed

lemma dfs_loop_result:
  assumes "dfs_inv sols st" "\<forall>s\<in>set sols. finite s"
  shows "dfs_loop t sols st = Exhausted
       \<or> (\<exists>w. dfs_loop t sols st = Found w \<and> good sols w \<and> card (\<Union> (set w)) = t)"
  using assms
proof (induction t sols st rule: dfs_loop.induct)
  case (1 t sols st)
  show ?case
  proof (cases "dfs_step t sols st")
    case (Inl r)
    then have "dfs_loop t sols st = r" by (subst dfs_loop.simps) simp
    then show ?thesis using dfs_step_inv[OF "1.prems", of t] Inl by auto
  next
    case (Inr st')
    then have l: "dfs_loop t sols st = dfs_loop t sols st'" by (subst dfs_loop.simps) simp
    have "dfs_inv sols st'" using dfs_step_inv[OF "1.prems", of t] Inr by simp
    from "1.IH"[OF Inr this "1.prems"(2)] show ?thesis unfolding l .
  qed
qed

lemma search_from_result:
  assumes "set starts \<subseteq> set sols" "\<forall>s\<in>set sols. finite s"
  shows "search_from t sols starts = Exhausted
       \<or> (\<exists>w. search_from t sols starts = Found w \<and> good sols w \<and> card (\<Union> (set w)) = t)"
  using assms(1)
proof (induction starts)
  case Nil
  then show ?case by simp
next
  case (Cons s starts)
  have "dfs_inv sols \<lparr>stack = [[s]], graph = Map.empty, heap = []\<rparr>"
    using Cons.prems by (simp add: dfs_inv_def good_def)
  from dfs_loop_result[OF this assms(2), of t] Cons.IH Cons.prems
  show ?case by (auto split: outcome.splits)
qed

section \<open>\<open>partition_solutions\<close>: failures\<close>

lemma remap_all_error: "remap_all p path = Inl e \<Longrightarrow> e = KeyError"
proof (induction path arbitrary: e)
  case Nil
  then show ?case by simp
next
  case (Cons s ss)
  show ?case
  proof (cases "remap_solution p s")
    case (Inl e')
    then have "e' = KeyError" by (auto simp: remap_solution_def split: if_splits)
    then show ?thesis using Cons.prems Inl by simp
  next
    case (Inr g)
    then show ?thesis using Cons by (cases "remap_all p ss") auto
  qed
qed

lemma positives_Nil: "positives [] = {}"
  by (simp add: positives_def)

lemma positives_Cons:
  "positives (i # m) = (if 0 < i then insert i (positives m) else positives m)"
  by (simp add: positives_def)

lemma finite_positives: "finite (positives m)"
  by (simp add: positives_def)

lemma candidates_of_finite: "\<forall>s\<in>set (candidates_of eng p mgs). finite s"
  by (auto simp: candidates_of_def finite_positives)

lemma partition_solutions_cases:
  "partition_solutions eng p mgs =
     (let sols = candidates_of eng p mgs
      in if sols = [] then
           (if itersolve eng (clauses p) \<noteq> [] then Inl ValueError
            else (case solution eng p of
                    Inl e \<Rightarrow> Inl e
                  | Inr s \<Rightarrow> Inl UnsatisfiableConstraints))
         else if length sols = 1 then remap_all p [sols ! 0]
         else
           (case search_from (card (\<Union> (set sols))) (sort_key (\<lambda>x. - int (card x)) sols)
                   (sort_key (\<lambda>x. - int (card x)) sols) of
                 Found new_vertex \<Rightarrow> remap_all p new_vertex
               | Exhausted \<Rightarrow> Inl UnsatisfiableConstraints
               | Raised e \<Rightarrow> Inl e))"
  by (simp add: partition_solutions_def Let_def)

lemma search_sorted_result:
  fixes sols :: "int set list"
  assumes "\<forall>s\<in>set sols. finite s"
  defines "srt \<equiv> sort_key (\<lambda>x. - int (card x)) sols"
  shows "search_from t srt srt = Exhausted
       \<or> (\<exists>w. search_from t srt srt = Found w \<and> good sols w \<and> card (\<Union> (set w)) = t)"
proof -
  have s: "set srt = set sols" by (simp add: srt_def)
  have "search_from t srt srt = Exhausted
       \<or> (\<exists>w. search_from t srt srt = Found w \<and> good srt w \<and> card (\<Union> (set w)) = t)"
    by (rule search_from_result) (simp_all add: s assms(1))
  then show ?thesis by (simp add: good_def s)
qed

lemma solution_error: "solution eng p = Inl e \<Longrightarrow> e \<noteq> ValueError"
  by (auto simp: solution_def remap_solution_def split: solve_result.splits if_splits)

text \<open>
  Claim C8. When the engine yields at least one model and every model has
  more positive literals than \<open>max_group_size\<close>, \<open>partition_solutions\<close> raises
  \<open>ValueError\<close>, and it raises \<open>ValueError\<close> in no other case. With two or more
  candidates the search ends, raises nothing of its own, and
  \<open>partition_solutions\<close> raises \<open>UnsatisfiableConstraints\<close> exactly when the
  search over all starting candidates is exhausted without a path whose pool
  has the target size. A raise is the whole result: nothing is returned with
  it.
\<close>

theorem partition_solutions_failures:
  "(itersolve eng (clauses p) \<noteq> []
      \<and> (\<forall>m\<in>set (itersolve eng (clauses p)). g < int (card (positives m)))
      \<longrightarrow> partition_solutions eng p (Some g) = Inl ValueError)
   \<and> (partition_solutions eng p max_group_size = Inl ValueError
      \<longrightarrow> itersolve eng (clauses p) \<noteq> [] \<and> candidates_of eng p max_group_size = [])
   \<and> (2 \<le> length (candidates_of eng p max_group_size) \<longrightarrow>
        (partition_solutions eng p max_group_size = Inl UnsatisfiableConstraints
         \<longleftrightarrow> search_from (card (\<Union> (set (candidates_of eng p max_group_size))))
               (sort_key (\<lambda>x. - int (card x)) (candidates_of eng p max_group_size))
               (sort_key (\<lambda>x. - int (card x)) (candidates_of eng p max_group_size))
             = Exhausted))
   \<and> (2 \<le> length (candidates_of eng p max_group_size) \<longrightarrow>
        search_from (card (\<Union> (set (candidates_of eng p max_group_size))))
          (sort_key (\<lambda>x. - int (card x)) (candidates_of eng p max_group_size))
          (sort_key (\<lambda>x. - int (card x)) (candidates_of eng p max_group_size))
        \<noteq> Raised e)"
proof -
  define sols where "sols = candidates_of eng p max_group_size"
  define srt where "srt = sort_key (\<lambda>x. - int (card x)) sols"
  define t where "t = card (\<Union> (set sols))"
  note ps = partition_solutions_cases[of eng p max_group_size, folded sols_def,
      unfolded Let_def, folded srt_def t_def]
  have sr: "search_from t srt srt = Exhausted
       \<or> (\<exists>w. search_from t srt srt = Found w \<and> good sols w \<and> card (\<Union> (set w)) = t)"
    unfolding srt_def
    by (rule search_sorted_result) (simp add: sols_def candidates_of_finite)
  have a: "partition_solutions eng p (Some g) = Inl ValueError"
    if "itersolve eng (clauses p) \<noteq> []"
      "\<forall>m\<in>set (itersolve eng (clauses p)). g < int (card (positives m))"
  proof -
    have "candidates_of eng p (Some g) = []"
      using that(2) by (auto simp: candidates_of_def filter_empty_conv)
    then show ?thesis
      using that(1) by (simp add: partition_solutions_cases[of eng p "Some g"])
  qed
  have b: "itersolve eng (clauses p) \<noteq> [] \<and> sols = []"
    if v: "partition_solutions eng p max_group_size = Inl ValueError"
  proof (cases "sols = []")
    case True
    show ?thesis
    proof (cases "itersolve eng (clauses p) = []")
      case e: True
      then have "partition_solutions eng p max_group_size
          = (case solution eng p of Inl e \<Rightarrow> Inl e | Inr s \<Rightarrow> Inl UnsatisfiableConstraints)"
        using True ps by simp
      then have False using v solution_error[of eng p ValueError]
        by (cases "solution eng p") auto
      then show ?thesis ..
    next
      case False
      then show ?thesis using True by simp
    qed
  next
    case False
    show ?thesis
    proof (cases "length sols = 1")
      case True
      then have "remap_all p [sols ! 0] = Inl ValueError" using False ps v by simp
      from remap_all_error[OF this] show ?thesis by simp
    next
      case n: False
      from sr show ?thesis
      proof
        assume "search_from t srt srt = Exhausted"
        then show ?thesis using False n ps v by simp
      next
        assume "\<exists>w. search_from t srt srt = Found w \<and> good sols w \<and> card (\<Union> (set w)) = t"
        then obtain w where w: "search_from t srt srt = Found w" by blast
        then have "remap_all p w = Inl ValueError" using False n ps v by simp
        from remap_all_error[OF this] show ?thesis by simp
      qed
    qed
  qed
  have c: "partition_solutions eng p max_group_size = Inl UnsatisfiableConstraints
         \<longleftrightarrow> search_from t srt srt = Exhausted"
    if "2 \<le> length sols"
  proof -
    have n: "sols \<noteq> []" "length sols \<noteq> 1" using that by auto
    from sr show ?thesis
    proof
      assume e: "search_from t srt srt = Exhausted"
      then show ?thesis using n ps by simp
    next
      assume "\<exists>w. search_from t srt srt = Found w \<and> good sols w \<and> card (\<Union> (set w)) = t"
      then obtain w where w: "search_from t srt srt = Found w" by blast
      then have r: "partition_solutions eng p max_group_size = remap_all p w"
        using n ps by simp
      have "remap_all p w \<noteq> Inl UnsatisfiableConstraints"
        using remap_all_error[of p w UnsatisfiableConstraints] by auto
      then show ?thesis using r w by simp
    qed
  qed
  have d: "search_from t srt srt \<noteq> Raised e" using sr by auto
  have "(itersolve eng (clauses p) \<noteq> []
      \<and> (\<forall>m\<in>set (itersolve eng (clauses p)). g < int (card (positives m)))
      \<longrightarrow> partition_solutions eng p (Some g) = Inl ValueError)
   \<and> (partition_solutions eng p max_group_size = Inl ValueError
      \<longrightarrow> itersolve eng (clauses p) \<noteq> [] \<and> sols = [])
   \<and> (2 \<le> length sols \<longrightarrow>
        (partition_solutions eng p max_group_size = Inl UnsatisfiableConstraints
         \<longleftrightarrow> search_from t srt srt = Exhausted))
   \<and> (2 \<le> length sols \<longrightarrow> search_from t srt srt \<noteq> Raised e)"
    using a b c d by blast
  then show ?thesis unfolding t_def srt_def sols_def .
qed


theorem partition_solutions_failures_witness:
  "itersolve \<lparr>solve = (\<lambda>cs. Model [1, - 2]), itersolve = (\<lambda>cs. [[1, - 2], [- 1, 2], [1, 2]])\<rparr>
      (clauses (snd (includes_any (init :: string AccessibleBSP) [''a'', ''b''] 1))) \<noteq> []
   \<and> list_all (\<lambda>m. 0 < int (card (positives m)))
        (itersolve
            \<lparr>solve = (\<lambda>cs. Model [1, - 2]), itersolve = (\<lambda>cs. [[1, - 2], [- 1, 2], [1, 2]])\<rparr>
            (clauses (snd (includes_any (init :: string AccessibleBSP) [''a'', ''b''] 1))))
   \<and> partition_solutions
        \<lparr>solve = (\<lambda>cs. Model [1, - 2]), itersolve = (\<lambda>cs. [[1, - 2], [- 1, 2], [1, 2]])\<rparr>
        (snd (includes_any (init :: string AccessibleBSP) [''a'', ''b''] 1)) (Some 0)
       = Inl ValueError
   \<and> 2 \<le> length (candidates_of
         \<lparr>solve = (\<lambda>cs. Model [1, 2]), itersolve = (\<lambda>cs. [[1, 2], [1, - 2]])\<rparr>
         (snd (includes_any (init :: string AccessibleBSP) [''a'', ''b''] 1)) None)
   \<and> partition_solutions
        \<lparr>solve = (\<lambda>cs. Model [1, 2]), itersolve = (\<lambda>cs. [[1, 2], [1, - 2]])\<rparr>
        (snd (includes_any (init :: string AccessibleBSP) [''a'', ''b''] 1)) None
       = Inl UnsatisfiableConstraints"
proof -
  define e3 where
    "e3 = \<lparr>solve = (\<lambda>cs. Model [1, - 2]), itersolve = (\<lambda>cs. [[1, - 2], [- 1, 2], [1, 2]])\<rparr>"
  define e4 where
    "e4 = \<lparr>solve = (\<lambda>cs. Model [1, 2]), itersolve = (\<lambda>cs. [[1, 2], [1, - 2 :: int]])\<rparr>"
  define q where "q = snd (includes_any (init :: string AccessibleBSP) [''a'', ''b''] 1)"
  have h1: "itersolve e3 (clauses q) \<noteq> []" by (simp add: e3_def)
  have h2: "\<forall>m\<in>set (itersolve e3 (clauses q)). 0 < int (card (positives m))"
    by (simp add: e3_def positives_Nil positives_Cons)
  have c4: "candidates_of e4 q None = [{1, 2}, {1}]"
    by (simp add: candidates_of_def e4_def positives_Nil positives_Cons)
  have h3: "2 \<le> length (candidates_of e4 q None)" unfolding c4 by simp
  have h4: "search_from (card (\<Union> (set (candidates_of e4 q None))))
               (sort_key (\<lambda>x. - int (card x)) (candidates_of e4 q None))
               (sort_key (\<lambda>x. - int (card x)) (candidates_of e4 q None))
             = Exhausted"
    unfolding c4 by code_simp
  note t3 = partition_solutions_failures[where eng = e3 and p = q and g = 0]
  note t4 = partition_solutions_failures[where eng = e4 and p = q and max_group_size = None]
  have r3: "partition_solutions e3 q (Some 0) = Inl ValueError"
    using t3 h1 h2 by blast
  have r4: "partition_solutions e4 q None = Inl UnsatisfiableConstraints"
    using t4 h3 h4 by blast
  have h2': "list_all (\<lambda>m. 0 < int (card (positives m))) (itersolve e3 (clauses q))"
    using h2 by (simp add: list_all_iff)
  show ?thesis
    unfolding e3_def[symmetric] e4_def[symmetric] q_def[symmetric]
    by (intro conjI h1 h2' r3 h3 r4)
qed

section \<open>What \<open>partition_solutions\<close> returns\<close>

text \<open>
  The candidates of \<open>partition_solutions\<close> hold positive identifiers only, so
  remapping one of them is remapping the model it came from, and a registry
  that satisfies \<open>registry_ok\<close> maps distinct identifiers to distinct elements:
  disjoint sets of identifiers are remapped to disjoint sets of elements.
\<close>

lemma positives_pos: "i \<in> positives m \<Longrightarrow> 0 < i"
  by (simp add: positives_def)

lemma remap_solution_positives: "remap_solution p (positives m) = remap_solution p (set m)"
proof -
  have "{i \<in> positives m. 0 < i} = {i \<in> set m. 0 < i}" by (auto simp: positives_def)
  moreover have "(\<exists>i\<in>positives m. 0 < i \<and> id2e p i = None)
      \<longleftrightarrow> (\<exists>i\<in>set m. 0 < i \<and> id2e p i = None)"
    by (auto simp: positives_def)
  ultimately show ?thesis by (simp add: remap_solution_def)
qed

lemma remap_solution_Inr:
  assumes "remap_solution p s = Inr g" "\<forall>i\<in>s. 0 < i"
  shows "g = (\<lambda>i. the (id2e p i)) ` s \<and> (\<forall>i\<in>s. id2e p i \<noteq> None)"
proof -
  have n: "\<not> (\<exists>i\<in>s. 0 < i \<and> id2e p i = None)"
  proof
    assume "\<exists>i\<in>s. 0 < i \<and> id2e p i = None"
    then have "remap_solution p s = Inl KeyError" by (simp add: remap_solution_def)
    then show False using assms(1) by simp
  qed
  then have r: "\<forall>i\<in>s. id2e p i \<noteq> None" using assms(2) by auto
  have "{i \<in> s. 0 < i} = s" using assms(2) by auto
  then have "g = (\<lambda>i. the (id2e p i)) ` s"
    using assms(1) n by (simp add: remap_solution_def)
  then show ?thesis using r by (intro conjI)
qed

lemma remap_solution_registered_set:
  assumes "\<forall>i\<in>s. 0 < i" "\<forall>i\<in>s. id2e p i \<noteq> None"
  shows "remap_solution p s = Inr ((\<lambda>i. the (id2e p i)) ` s)"
proof -
  have "{i \<in> s. 0 < i} = s" using assms(1) by auto
  moreover have "\<not> (\<exists>i\<in>s. 0 < i \<and> id2e p i = None)" using assms(2) by auto
  ultimately show ?thesis by (simp add: remap_solution_def)
qed

lemma remap_all_Inr:
  assumes "remap_all p path = Inr groups" "\<forall>s\<in>set path. \<forall>i\<in>s. 0 < i"
  shows "groups = map ((`) (\<lambda>i. the (id2e p i))) path
       \<and> (\<forall>s\<in>set path. \<forall>i\<in>s. id2e p i \<noteq> None)"
  using assms
proof (induction path arbitrary: groups)
  case Nil
  then show ?case by simp
next
  case (Cons s ss)
  obtain g where g: "remap_solution p s = Inr g"
    using Cons.prems(1) by (cases "remap_solution p s") simp_all
  obtain gs where gs: "remap_all p ss = Inr gs"
    using Cons.prems(1) g by (cases "remap_all p ss") simp_all
  have e: "groups = g # gs" using Cons.prems(1) g gs by simp
  have ps: "\<forall>i\<in>s. 0 < i" using Cons.prems(2) by simp
  have pss: "\<forall>s\<in>set ss. \<forall>i\<in>s. 0 < i" using Cons.prems(2) by simp
  from remap_solution_Inr[OF g ps]
  have g1: "g = (\<lambda>i. the (id2e p i)) ` s" and g2: "\<forall>i\<in>s. id2e p i \<noteq> None" by simp_all
  from Cons.IH[OF gs pss]
  have i1: "gs = map ((`) (\<lambda>i. the (id2e p i))) ss"
    and i2: "\<forall>s\<in>set ss. \<forall>i\<in>s. id2e p i \<noteq> None" by simp_all
  have "groups = map ((`) (\<lambda>i. the (id2e p i))) (s # ss)"
    unfolding e using g1 i1 by simp
  moreover have "\<forall>x\<in>set (s # ss). \<forall>i\<in>x. id2e p i \<noteq> None"
    using g2 i2 by simp
  ultimately show ?case by (intro conjI)
qed

lemma registry_ok_id_inj:
  assumes "registry_ok p" "id2e p i \<noteq> None" "id2e p j \<noteq> None"
    "the (id2e p i) = the (id2e p j)"
  shows "i = j"
proof -
  obtain e where e: "id2e p i = Some e" "id2e p j = Some e" using assms(2,3,4) by auto
  then have "e2id p e = Some i" "e2id p e = Some j"
    using assms(1) by (simp_all add: registry_ok_def)
  then show ?thesis by simp
qed

lemma disjoint_images:
  assumes inj: "inj_on f U" and sub: "\<forall>s\<in>set path. s \<subseteq> U"
    and dj: "sorted_wrt (\<lambda>a b. a \<inter> b = {}) path"
  shows "sorted_wrt (\<lambda>a b. a \<inter> b = {}) (map ((`) f) path)"
proof -
  have im: "f ` a \<inter> f ` b = {}" if "a \<in> set path" "b \<in> set path" "a \<inter> b = {}" for a b
  proof -
    have "a \<subseteq> U" "b \<subseteq> U" using that sub by blast+
    then have "f ` (a \<inter> b) = f ` a \<inter> f ` b" by (rule inj_on_image_Int[OF inj])
    then show ?thesis using that(3) by simp
  qed
  have "sorted_wrt (\<lambda>a b. f ` a \<inter> f ` b = {}) path"
    by (rule sorted_wrt_mono_rel[OF _ dj]) (rule im)
  then show ?thesis by (simp add: sorted_wrt_map)
qed


lemma cover_remap:
  fixes p :: "'e AccessibleBSP"
  assumes ok: "registry_ok p"
    and ne: "itersolve eng (clauses p) \<noteq> []"
    and path: "set path \<subseteq> positives ` set (itersolve eng (clauses p))"
    and dj: "sorted_wrt (\<lambda>a b. a \<inter> b = {}) path"
    and un: "\<Union> (set path) = \<Union> (positives ` set (itersolve eng (clauses p)))"
    and rm: "remap_all p path = Inr groups"
  shows "sorted_wrt (\<lambda>a b. a \<inter> b = {}) groups
       \<and> (\<forall>g\<in>set groups. Inr g \<in> set (solutions eng p))
       \<and> (\<forall>r\<in>set (solutions eng p). \<exists>g. r = Inr g)
       \<and> \<Union> (set groups) = \<Union> {g. Inr g \<in> set (solutions eng p)}"
proof -
  define f where "f = (\<lambda>i. the (id2e p i))"
  define U where "U = \<Union> (set path)"
  define models where "models = itersolve eng (clauses p)"
  have pp: "\<forall>s\<in>set path. \<forall>i\<in>s. 0 < i"
  proof (intro ballI)
    fix s i assume "s \<in> set path" "i \<in> s"
    then obtain m where "s = positives m" using path by auto
    then show "0 < i" using \<open>i \<in> s\<close> positives_pos by simp
  qed
  from remap_all_Inr[OF rm pp]
  have gr: "groups = map ((`) f) path"
    and reg0: "\<forall>s\<in>set path. \<forall>i\<in>s. id2e p i \<noteq> None"
    unfolding f_def by simp_all
  have reg: "id2e p i \<noteq> None" if "i \<in> U" for i
    using that reg0 unfolding U_def by auto
  have inj: "inj_on f U"
  proof (rule inj_onI)
    fix i j assume "i \<in> U" "j \<in> U" "f i = f j"
    then show "i = j"
      using registry_ok_id_inj[OF ok reg reg, of i j] by (simp add: f_def)
  qed
  have sub: "\<forall>s\<in>set path. s \<subseteq> U" unfolding U_def by auto
  have A: "sorted_wrt (\<lambda>a b. a \<inter> b = {}) groups"
    unfolding gr by (rule disjoint_images[OF inj sub dj])
  have mod: "remap_solution p (set m) = Inr (f ` positives m)" if "m \<in> set models" for m
  proof -
    have "positives m \<subseteq> U" unfolding U_def un using that by (auto simp: models_def)
    then have "\<forall>i\<in>positives m. id2e p i \<noteq> None" using reg by auto
    moreover have "\<forall>i\<in>positives m. 0 < i" using positives_pos by auto
    ultimately have "remap_solution p (positives m) = Inr (f ` positives m)"
      unfolding f_def by (rule remap_solution_registered_set[rotated])
    then show ?thesis by (simp add: remap_solution_positives)
  qed
  have so: "solutions eng p = map (\<lambda>m. remap_solution p (set m)) models"
    using ne by (simp add: solutions_def models_def)
  have so': "solutions eng p = map (\<lambda>m. Inr (f ` positives m)) models"
    unfolding so using mod by simp
  have B: "\<forall>g\<in>set groups. Inr g \<in> set (solutions eng p)"
  proof
    fix g assume "g \<in> set groups"
    then obtain s where s: "s \<in> set path" "g = f ` s" unfolding gr by auto
    then obtain m where m: "m \<in> set models" "s = positives m"
      using path by (auto simp: models_def)
    show "Inr g \<in> set (solutions eng p)"
      unfolding so' s(2) m(2) using m(1) by simp
  qed
  have C: "\<forall>r\<in>set (solutions eng p). \<exists>g. r = Inr g"
    unfolding so' by auto
  have "{g. Inr g \<in> set (solutions eng p)} = (\<lambda>m. f ` positives m) ` set models"
    unfolding so' by auto
  then have "\<Union> {g. Inr g \<in> set (solutions eng p)} = f ` \<Union> (positives ` set models)"
    by auto
  also have "\<dots> = f ` U" unfolding U_def un models_def ..
  finally have D1: "\<Union> {g. Inr g \<in> set (solutions eng p)} = f ` U" .
  have D2: "\<Union> (set groups) = f ` U" unfolding gr U_def by auto
  have D: "\<Union> (set groups) = \<Union> {g. Inr g \<in> set (solutions eng p)}"
    unfolding D1 D2 ..
  show ?thesis by (intro conjI A B C D)
qed


lemma candidates_of_None:
  "candidates_of eng p None = map positives (itersolve eng (clauses p))"
  by (simp add: candidates_of_def)

lemma partition_solutions_path:
  assumes "partition_solutions eng p None = Inr groups"
  shows "itersolve eng (clauses p) \<noteq> []
       \<and> (\<exists>path. set path \<subseteq> positives ` set (itersolve eng (clauses p))
             \<and> sorted_wrt (\<lambda>a b. a \<inter> b = {}) path
             \<and> \<Union> (set path) = \<Union> (positives ` set (itersolve eng (clauses p)))
             \<and> remap_all p path = Inr groups)"
proof -
  define sols where "sols = candidates_of eng p None"
  define srt where "srt = sort_key (\<lambda>x. - int (card x)) sols"
  define t where "t = card (\<Union> (set sols))"
  have ss: "set sols = positives ` set (itersolve eng (clauses p))"
    by (simp add: sols_def candidates_of_None)
  note ps = partition_solutions_cases[of eng p None, folded sols_def,
      unfolded Let_def, folded srt_def t_def]
  have fin: "\<forall>s\<in>set sols. finite s"
    unfolding sols_def by (rule candidates_of_finite)
  have n: "sols \<noteq> []"
  proof
    assume "sols = []"
    then have "\<exists>e. partition_solutions eng p None = Inl e"
      using ps by (cases "solution eng p") auto
    then show False using assms by auto
  qed
  then have ne: "itersolve eng (clauses p) \<noteq> []"
    by (auto simp: sols_def candidates_of_None)
  have "\<exists>path. set path \<subseteq> set sols \<and> sorted_wrt (\<lambda>a b. a \<inter> b = {}) path
          \<and> \<Union> (set path) = \<Union> (set sols) \<and> remap_all p path = Inr groups"
  proof (cases "length sols = 1")
    case True
    then obtain x where x: "sols = [x]" by (cases sols) auto
    have "remap_all p [x] = Inr groups" using ps assms x by simp
    then have "set [x] \<subseteq> set sols \<and> sorted_wrt (\<lambda>a b. a \<inter> b = {}) [x]
          \<and> \<Union> (set [x]) = \<Union> (set sols) \<and> remap_all p [x] = Inr groups"
      by (simp add: x)
    then show ?thesis ..
  next
    case False
    have sr: "search_from t srt srt = Exhausted
       \<or> (\<exists>w. search_from t srt srt = Found w \<and> good sols w \<and> card (\<Union> (set w)) = t)"
      unfolding srt_def by (rule search_sorted_result[OF fin])
    have "search_from t srt srt \<noteq> Exhausted"
    proof
      assume "search_from t srt srt = Exhausted"
      then have "partition_solutions eng p None = Inl UnsatisfiableConstraints"
        using ps n False by simp
      then show False using assms by simp
    qed
    then obtain w where w: "search_from t srt srt = Found w" "good sols w"
      "card (\<Union> (set w)) = t"
      using sr by auto
    have r: "remap_all p w = Inr groups" using ps n False w(1) assms by simp
    have sub: "set w \<subseteq> set sols" and dj: "sorted_wrt (\<lambda>a b. a \<inter> b = {}) w"
      using w(2) by (simp_all add: good_def)
    have u1: "\<Union> (set w) \<subseteq> \<Union> (set sols)" using sub by auto
    have u2: "finite (\<Union> (set sols))" using fin by auto
    have u3: "card (\<Union> (set w)) = card (\<Union> (set sols))" using w(3) by (simp add: t_def)
    have "\<Union> (set w) = \<Union> (set sols)" by (rule card_subset_eq[OF u2 u1 u3])
    then have "set w \<subseteq> set sols \<and> sorted_wrt (\<lambda>a b. a \<inter> b = {}) w
          \<and> \<Union> (set w) = \<Union> (set sols) \<and> remap_all p w = Inr groups"
      using sub dj r by (intro conjI)
    then show ?thesis ..
  qed
  then show ?thesis using ne unfolding ss by (intro conjI)
qed

text \<open>
  Claim C1. When \<open>partition_solutions\<close>, called with no \<open>max_group_size\<close>,
  returns a list \<open>groups\<close>, the enumeration of the engine was not empty, the
  sets of \<open>groups\<close> are pairwise disjoint, each of them is an element of
  \<open>solutions\<close> (an enumerated model remapped to domain elements), every
  enumerated model was remapped without error, and the union of \<open>groups\<close> is
  the union of all the enumerated solutions. Nothing is said about the number
  of groups.
\<close>

theorem partition_solutions_disjoint_cover:
  assumes "registry_ok p" and "partition_solutions eng p None = Inr groups"
  shows "itersolve eng (clauses p) \<noteq> []
       \<and> (\<forall>i j. i < j \<and> j < length groups \<longrightarrow> groups ! i \<inter> groups ! j = {})
       \<and> (\<forall>g\<in>set groups. Inr g \<in> set (solutions eng p))
       \<and> (\<forall>r\<in>set (solutions eng p). \<exists>g. r = Inr g)
       \<and> \<Union> (set groups) = \<Union> {g. Inr g \<in> set (solutions eng p)}"
proof -
  from partition_solutions_path[OF assms(2)]
  obtain path where ne: "itersolve eng (clauses p) \<noteq> []"
    and path: "set path \<subseteq> positives ` set (itersolve eng (clauses p))"
    and dj: "sorted_wrt (\<lambda>a b. a \<inter> b = {}) path"
    and un: "\<Union> (set path) = \<Union> (positives ` set (itersolve eng (clauses p)))"
    and rm: "remap_all p path = Inr groups"
    by (elim conjE exE)
  from cover_remap[OF assms(1) ne path dj un rm]
  have A: "sorted_wrt (\<lambda>a b. a \<inter> b = {}) groups"
    and B: "\<forall>g\<in>set groups. Inr g \<in> set (solutions eng p)"
    and C: "\<forall>r\<in>set (solutions eng p). \<exists>g. r = Inr g"
    and D: "\<Union> (set groups) = \<Union> {g. Inr g \<in> set (solutions eng p)}"
    by simp_all
  have A': "\<forall>i j. i < j \<and> j < length groups \<longrightarrow> groups ! i \<inter> groups ! j = {}"
    using A by (simp add: sorted_wrt_iff_nth_less)
  show ?thesis by (intro conjI ne A' B C D)
qed

theorem partition_solutions_disjoint_cover_witness:
  "registry_ok (snd (includes_any (init :: string AccessibleBSP) [''a'', ''b''] 1))
   \<and> partition_solutions
        \<lparr>solve = (\<lambda>cs. Model [1, - 2]), itersolve = (\<lambda>cs. [[1, - 2], [- 1, 2], [1, 2]])\<rparr>
        (snd (includes_any (init :: string AccessibleBSP) [''a'', ''b''] 1)) None
       = Inr [{''a''}, {''b''}]
   \<and> {''a''} \<inter> {''b''} = ({} :: string set)
   \<and> Inr {''a''} \<in> set (solutions
        \<lparr>solve = (\<lambda>cs. Model [1, - 2]), itersolve = (\<lambda>cs. [[1, - 2], [- 1, 2], [1, 2]])\<rparr>
        (snd (includes_any (init :: string AccessibleBSP) [''a'', ''b''] 1)))
   \<and> Inr {''b''} \<in> set (solutions
        \<lparr>solve = (\<lambda>cs. Model [1, - 2]), itersolve = (\<lambda>cs. [[1, - 2], [- 1, 2], [1, 2]])\<rparr>
        (snd (includes_any (init :: string AccessibleBSP) [''a'', ''b''] 1)))
   \<and> \<Union> {g. Inr g \<in> set (solutions
        \<lparr>solve = (\<lambda>cs. Model [1, - 2]), itersolve = (\<lambda>cs. [[1, - 2], [- 1, 2], [1, 2]])\<rparr>
        (snd (includes_any (init :: string AccessibleBSP) [''a'', ''b''] 1)))}
       = {''a'', ''b''}"
proof -
  define e3 where
    "e3 = \<lparr>solve = (\<lambda>cs. Model [1, - 2]), itersolve = (\<lambda>cs. [[1, - 2], [- 1, 2], [1, 2]])\<rparr>"
  define q where "q = snd (includes_any (init :: string AccessibleBSP) [''a'', ''b''] 1)"
  have ok: "registry_ok q"
    unfolding q_def
    by (simp add: includes_any_def split_beta Let_def registry_ok_append_clauses
        registry_ok_to_id registry_ok_init)
  have ids: "id2e q 1 = Some ''a''" "id2e q 2 = Some ''b''"
    by (simp_all add: q_def includes_any_def append_clauses_def to_id_def init_def Let_def)
  have c: "candidates_of e3 q None = [{1}, {2}, {1, 2}]"
    by (simp add: candidates_of_def e3_def positives_Nil positives_Cons insert_commute)
  have srt: "sort_key (\<lambda>x. - int (card x)) [{1}, {2}, {1, 2 :: int}] = [{1, 2}, {1}, {2}]"
    by simp
  have t: "card (\<Union> (set [{1}, {2}, {1, 2 :: int}])) = 2"
    by (simp add: card_insert_if)
  have sf: "search_from 2 [{1, 2}, {1}, {2 :: int}] [{1, 2}, {1}, {2}] = Found [{1}, {2}]"
    by code_simp
  have r1: "remap_solution q {1} = Inr {''a''}"
    using remap_solution_list[of q "[1]"] by (simp add: ids)
  have r2: "remap_solution q {2} = Inr {''b''}"
    using remap_solution_list[of q "[2]"] by (simp add: ids)
  have rm: "remap_all q [{1}, {2}] = Inr [{''a''}, {''b''}]"
    by (simp add: r1 r2)
  have ps: "partition_solutions e3 q None = Inr [{''a''}, {''b''}]"
    unfolding partition_solutions_def Let_def c srt t sf by (simp add: r1 r2)
  note th = partition_solutions_disjoint_cover[OF ok ps]
  have d: "\<forall>i j. i < j \<and> j < length [{''a''}, {''b''}]
      \<longrightarrow> [{''a''}, {''b''}] ! i \<inter> [{''a''}, {''b''}] ! j = ({} :: string set)"
    by (rule th[THEN conjunct2, THEN conjunct1])
  have d': "{''a''} \<inter> {''b''} = ({} :: string set)"
    using d[rule_format, of 0 1] by simp
  have m: "\<forall>g\<in>set [{''a''}, {''b''}]. Inr g \<in> set (solutions e3 q)"
    by (rule th[THEN conjunct2, THEN conjunct2, THEN conjunct1])
  have m1: "Inr {''a''} \<in> set (solutions e3 q)" using m by simp
  have m2: "Inr {''b''} \<in> set (solutions e3 q)" using m by simp
  have u: "\<Union> (set [{''a''}, {''b''}]) = \<Union> {g. Inr g \<in> set (solutions e3 q)}"
    by (rule th[THEN conjunct2, THEN conjunct2, THEN conjunct2, THEN conjunct2])
  have u': "\<Union> {g. Inr g \<in> set (solutions e3 q)} = {''a'', ''b''}"
    unfolding u[symmetric] by auto
  show ?thesis
    unfolding e3_def[symmetric] q_def[symmetric]
    by (intro conjI ok ps d' m1 m2 u')
qed

end
